theory Spec2Isabelle
  imports Main "HOL-Library.Word"
begin

unbundle bit_operations_syntax

section \<open>GOST2-128 file encryptor: machine types\<close>

text \<open>
  The program works on \<open>unsigned char\<close> (8 bits), \<open>uint32_t\<close> and \<open>word64\<close>
  (\<open>uint64_t\<close>). Arithmetic on them wraps around, as word arithmetic does.
\<close>

type_synonym byte = "8 word"
type_synonym word32 = "32 word"
type_synonym word64 = "64 word"

definition BLOCK_SIZE :: nat where
  "BLOCK_SIZE = 16"

definition READ_CHUNK :: nat where
  "READ_CHUNK = 64 * 1024"

definition n1 :: nat where
  "n1 = 512"

section \<open>Buffers\<close>

text \<open>
  Buffers are lists. \<open>buf_store buf off bs\<close> writes the bytes \<open>bs\<close> into \<open>buf\<close>
  from offset \<open>off\<close> on (a \<open>memcpy\<close>, \<open>memmove\<close> or \<open>fread\<close> into
  \<open>buf + off\<close>), and \<open>buf_load buf off n\<close> reads \<open>n\<close> bytes from there. A buffer
  holds what the program has stored in it so far; the stores of the program are to
  offsets that are within it or at its end.
\<close>

definition buf_store :: "byte list \<Rightarrow> nat \<Rightarrow> byte list \<Rightarrow> byte list" where
  "buf_store buf off bs = take off buf @ bs @ drop (off + length bs) buf"

definition buf_load :: "byte list \<Rightarrow> nat \<Rightarrow> nat \<Rightarrow> byte list" where
  "buf_load buf off n = take n (drop off buf)"

section \<open>GOST2-128 core: the key hash\<close>

text \<open>
  The hash works on the globals \<open>x1\<close>, \<open>x2\<close>, \<open>h2\<close> (the checksum array, \<open>n1\<close>
  bytes) and \<open>h1\<close> (the work buffer, \<open>3 * n1\<close> bytes); the record is these globals.
  \<open>x1\<close> is an \<open>int\<close> that only ever holds the value of a byte of \<open>h2\<close>.
\<close>

record keyhash =
  x1 :: byte
  x2 :: nat
  h2 :: "byte list"
  h1 :: "byte list"

text \<open>Static storage starts as zeros.\<close>

definition keyhash_static :: keyhash where
  "keyhash_static = \<lparr>x1 = 0, x2 = 0, h2 = replicate n1 0, h1 = replicate (n1 * 3) 0\<rparr>"

text \<open>\<open>for (i = lo; i < hi; i++) a[i] = 0\<close>.\<close>

definition zero_fill :: "byte list \<Rightarrow> nat \<Rightarrow> nat \<Rightarrow> byte list" where
  "zero_fill d i n = fold (\<lambda>j d'. d'[j := 0]) [i..<n] d"

definition init_gost_keyhash :: "keyhash \<Rightarrow> keyhash" where
  "init_gost_keyhash g = g\<lparr>x1 := 0, x2 := 0, h2 := zero_fill (h2 g) 0 n1, h1 := zero_fill (h1 g) 0 n1\<rparr>"

definition s4 :: "byte list" where
  "s4 =
   [13,199,11,67,237,193,164,77,115,184,141,222,73,38,147,36,150,87,21,104,12,61,156,101,111,145,
    119,22,207,35,198,37,171,167,80,30,219,28,213,121,86,29,214,242,6,4,89,162,110,175,19,157,3,88,234,94,144,118,159,239,100,17,182,173,238,
    68,16,79,132,54,163,52,9,58,57,55,229,192,170,226,56,231,187,158,70,224,233,245,26,47,32,44,247,8,251,20,197,185,109,153,204,218,93,178,
    212,137,84,174,24,120,130,149,72,180,181,208,255,189,152,18,143,176,60,249,27,227,128,139,243,253,59,123,172,108,211,96,138,10,215,42,225,40,81,
    65,90,25,98,126,154,64,124,116,122,5,1,168,83,190,131,191,244,240,235,177,155,228,125,66,43,201,248,220,129,188,230,62,75,71,78,34,31,216,
    254,136,91,114,106,46,217,196,92,151,209,133,51,236,33,252,127,179,69,7,183,105,146,97,39,15,205,112,200,166,223,45,48,246,186,41,148,140,107,
    76,85,95,194,142,50,49,134,23,135,169,221,210,203,63,165,82,161,202,53,14,206,232,103,102,195,117,250,99,0,74,160,241,2,113]"

text \<open>
  The argument \<open>t1\<close> of \<open>hashing\<close> is a pointer: to a buffer of the caller, or to the
  global \<open>h2\<close> itself (\<open>hashing(h2, sizeof(h2))\<close>), which \<open>hashing\<close> changes while
  it reads it. \<open>src_byte t1 g b4\<close> is \<open>t1[b4]\<close> in the state \<open>g\<close>.
\<close>

datatype hash_src = Mem "byte list" | H2

definition src_byte :: "hash_src \<Rightarrow> keyhash \<Rightarrow> nat \<Rightarrow> byte" where
  "src_byte t1 g b4 = (case t1 of Mem buf \<Rightarrow> buf ! b4 | H2 \<Rightarrow> h2 g ! b4)"

text \<open>The loop \<open>for (; b6 && x2 < n1; b6--, x2++)\<close>; it returns \<open>b4\<close>, \<open>b6\<close> and the globals.\<close>

function hashing_for :: "hash_src \<Rightarrow> nat \<Rightarrow> nat \<Rightarrow> keyhash \<Rightarrow> nat \<times> nat \<times> keyhash" where
  "hashing_for t1 b4 b6 g =
     (if b6 \<noteq> 0 \<and> x2 g < n1 then
        (let b5 = src_byte t1 g b4;
             g1 = g\<lparr>h1 := (h1 g)[x2 g + n1 := b5]\<rparr>;
             g2 = g1\<lparr>h1 := (h1 g1)[x2 g1 + n1 * 2 := b5 XOR h1 g1 ! x2 g1]\<rparr>;
             v = h2 g2 ! x2 g2 XOR s4 ! unat (b5 XOR x1 g2);
             g3 = g2\<lparr>h2 := (h2 g2)[x2 g2 := v], x1 := v\<rparr>
         in hashing_for t1 (b4 + 1) (b6 - 1) (g3\<lparr>x2 := x2 g3 + 1\<rparr>))
      else (b4, b6, g))"
  by pat_completeness auto
termination
  by (relation "measure (\<lambda>(t1, b4, b6, g). b6)") auto

declare hashing_for.simps [simp del]

text \<open>The loop \<open>for (b1 = 0; b1 < n1*3; b1++) b2 = h1[b1] ^= s4[b2]\<close>.\<close>

function compress_row :: "nat \<Rightarrow> byte \<Rightarrow> byte list \<Rightarrow> byte \<times> byte list" where
  "compress_row b1 b2 h =
     (if b1 < n1 * 3 then
        (let v = h ! b1 XOR s4 ! unat b2
         in compress_row (b1 + 1) v (h[b1 := v]))
      else (b2, h))"
  by pat_completeness auto
termination
  by (relation "measure (\<lambda>(b1, b2, h). n1 * 3 - b1)") auto

declare compress_row.simps [simp del]

text \<open>The loop \<open>for (b3 = 0; b3 < n1+2; b3++)\<close> around it, with \<open>b2 = (b2 + b3) % 256\<close>.\<close>

function compress_loop :: "nat \<Rightarrow> byte \<Rightarrow> byte list \<Rightarrow> byte \<times> byte list" where
  "compress_loop b3 b2 h =
     (if b3 < n1 + 2 then
        (case compress_row 0 b2 h of
           (b2', h') \<Rightarrow> compress_loop (b3 + 1) (of_nat ((unat b2' + b3) mod 256)) h')
      else (b2, h))"
  by pat_completeness auto
termination
  by (relation "measure (\<lambda>(b3, b2, h). n1 + 2 - b3)") auto

declare compress_loop.simps [simp del]

text \<open>The block under \<open>if (x2 == n1)\<close>.\<close>

definition compress :: "keyhash \<Rightarrow> keyhash" where
  "compress g = (if x2 g = n1 then g\<lparr>x2 := 0, h1 := snd (compress_loop 0 0 (h1 g))\<rparr> else g)"

text \<open>
  The loop \<open>while (b6)\<close> of \<open>hashing\<close>. With \<open>x2\<close> above \<open>n1\<close> it would make no
  progress, so it is a partial function: \<open>None\<close> is the loop that does not end.
\<close>

partial_function (option) hashing_loop :: "hash_src \<Rightarrow> nat \<Rightarrow> nat \<Rightarrow> keyhash \<Rightarrow> keyhash option" where
  "hashing_loop t1 b4 b6 g =
     (if b6 \<noteq> 0 then
        (case hashing_for t1 b4 b6 g of
           (b4', b6', g1) \<Rightarrow> hashing_loop t1 b4' b6' (compress g1))
      else Some g)"

definition hashing :: "hash_src \<Rightarrow> nat \<Rightarrow> keyhash \<Rightarrow> keyhash option" where
  "hashing t1 b6 g = hashing_loop t1 0 b6 g"

text \<open>
  The padding \<open>h3\<close> of \<open>end_gost_keyhash\<close>: \<open>n4 = n1 - x2\<close> bytes, each the \<open>int\<close>
  \<open>n4\<close> stored into an \<open>unsigned char\<close>.
\<close>

definition keyhash_pad :: "keyhash \<Rightarrow> byte list" where
  "keyhash_pad g = (let n4 = n1 - x2 g in replicate n4 (of_nat n4))"

text \<open>\<open>end_gost_keyhash(h4)\<close> returns \<open>h4\<close> and the globals.\<close>

definition end_gost_keyhash :: "keyhash \<Rightarrow> (byte list \<times> keyhash) option" where
  "end_gost_keyhash g =
     (let h3 = keyhash_pad g;
          n4 = n1 - x2 g
      in case hashing (Mem h3) n4 g of
           None \<Rightarrow> None
         | Some g1 \<Rightarrow>
             (case hashing H2 n1 g1 of
                None \<Rightarrow> None
              | Some g2 \<Rightarrow> Some (buf_load (h1 g2) 0 n1, g2)))"

text \<open>
  \<open>create_keys\<close>: the index \<open>k\<close> into \<open>h4\<close> is incremented at every use, so it is
  \<open>8 * i + z\<close>.
\<close>

definition create_keys :: "byte list \<Rightarrow> word64 list" where
  "create_keys h4 =
     map (\<lambda>i. fold (\<lambda>z key. push_bit 8 key + ucast (h4 ! (8 * i + z) AND 0xff)) [0..<8] 0) [0..<64]"

text \<open>
  \<open>derive_gost_subkeys_from_password\<close>; the password is the bytes of the C string,
  \<open>strlen(password)\<close> of them.
\<close>

definition derive_gost_subkeys_from_password :: "byte list \<Rightarrow> keyhash \<Rightarrow> (word64 list \<times> keyhash) option" where
  "derive_gost_subkeys_from_password password g =
     (case hashing (Mem password) (length password) (init_gost_keyhash g) of
        None \<Rightarrow> None
      | Some g1 \<Rightarrow>
          (case end_gost_keyhash g1 of
             None \<Rightarrow> None
           | Some (h4, g2) \<Rightarrow> Some (create_keys h4, g2)))"

section \<open>GOST2-128 core: substitution tables\<close>

definition k1 :: "byte list" where
  "k1 = [0x4,0xA,0x9,0x2,0xD,0x8,0x0,0xE,0x6,0xB,0x1,0xC,0x7,0xF,0x5,0x3]"
definition k2 :: "byte list" where
  "k2 = [0xE,0xB,0x4,0xC,0x6,0xD,0xF,0xA,0x2,0x3,0x8,0x1,0x0,0x7,0x5,0x9]"
definition k3 :: "byte list" where
  "k3 = [0x5,0x8,0x1,0xD,0xA,0x3,0x4,0x2,0xE,0xF,0xC,0x7,0x6,0x0,0x9,0xB]"
definition k4 :: "byte list" where
  "k4 = [0x7,0xD,0xA,0x1,0x0,0x8,0x9,0xF,0xE,0x4,0x6,0xC,0xB,0x2,0x5,0x3]"
definition k5 :: "byte list" where
  "k5 = [0x6,0xC,0x7,0x1,0x5,0xF,0xD,0x8,0x4,0xA,0x9,0xE,0x0,0x3,0xB,0x2]"
definition k6 :: "byte list" where
  "k6 = [0x4,0xB,0xA,0x0,0x7,0x2,0x1,0xD,0x3,0x6,0x8,0x5,0x9,0xC,0xF,0xE]"
definition k7 :: "byte list" where
  "k7 = [0xD,0xB,0x4,0x1,0x3,0xF,0x5,0x9,0x0,0xA,0xE,0x7,0x6,0x8,0x2,0xC]"
definition k8 :: "byte list" where
  "k8 = [0x1,0xF,0xD,0x0,0x5,0x7,0xA,0x4,0x9,0x2,0x3,0xE,0x6,0xB,0x8,0xC]"
definition k9 :: "byte list" where
  "k9 = [0xC,0x4,0x6,0x2,0xA,0x5,0xB,0x9,0xE,0x8,0xD,0x7,0x0,0x3,0xF,0x1]"
definition k10 :: "byte list" where
  "k10 = [0x6,0x8,0x2,0x3,0x9,0xA,0x5,0xC,0x1,0xE,0x4,0x7,0xB,0xD,0x0,0xF]"
definition k11 :: "byte list" where
  "k11 = [0xB,0x3,0x5,0x8,0x2,0xF,0xA,0xD,0xE,0x1,0x7,0x4,0xC,0x9,0x6,0x0]"
definition k12 :: "byte list" where
  "k12 = [0xC,0x8,0x2,0x1,0xD,0x4,0xF,0x6,0x7,0x0,0xA,0x5,0x3,0xE,0x9,0xB]"
definition k13 :: "byte list" where
  "k13 = [0x7,0xF,0x5,0xA,0x8,0x1,0x6,0xD,0x0,0x9,0x3,0xE,0xB,0x4,0x2,0xC]"
definition k14 :: "byte list" where
  "k14 = [0x5,0xD,0xF,0x6,0x9,0x2,0xC,0xA,0xB,0x7,0x8,0x1,0x4,0x3,0xE,0x0]"
definition k15 :: "byte list" where
  "k15 = [0x8,0xE,0x2,0x5,0x6,0x9,0x1,0xC,0xF,0x4,0xB,0x0,0xD,0xA,0x3,0x7]"
definition k16 :: "byte list" where
  "k16 = [0x1,0x7,0xE,0xD,0x0,0x5,0x8,0x3,0x4,0xF,0xA,0x6,0x9,0xC,0xB,0x2]"

text \<open>
  The eight 256-entry byte tables are global arrays that \<open>kboxinit\<close> fills; the
  cipher reads them. They are the record \<open>kbox\<close>, which every cipher function takes.
\<close>

record kbox =
  k175 :: "byte list"
  k153 :: "byte list"
  k131 :: "byte list"
  k109 :: "byte list"
  k87 :: "byte list"
  k65 :: "byte list"
  k43 :: "byte list"
  k21 :: "byte list"

text \<open>
  One entry of \<open>kboxinit\<close>: \<open>hi[i >> 4] << 4 | lo[i & 15]\<close>, stored into an
  \<open>unsigned char\<close>.
\<close>

definition kbox_entry :: "byte list \<Rightarrow> byte list \<Rightarrow> nat \<Rightarrow> byte" where
  "kbox_entry hi lo i = push_bit 4 (hi ! (drop_bit 4 i)) OR lo ! (i AND 15)"

definition kboxinit :: kbox where
  "kboxinit =
     \<lparr> k175 = map (kbox_entry k16 k15) [0..<256],
       k153 = map (kbox_entry k14 k13) [0..<256],
       k131 = map (kbox_entry k12 k11) [0..<256],
       k109 = map (kbox_entry k10 k9) [0..<256],
       k87 = map (kbox_entry k8 k7) [0..<256],
       k65 = map (kbox_entry k6 k5) [0..<256],
       k43 = map (kbox_entry k4 k3) [0..<256],
       k21 = map (kbox_entry k2 k1) [0..<256] \<rparr>"

section \<open>GOST2-128 core: round function and block transforms\<close>

text \<open>The lookup \<open>(word64) t[v & 255]\<close> of \<open>f\<close>.\<close>

definition sub8 :: "byte list \<Rightarrow> word64 \<Rightarrow> word64" where
  "sub8 t v = ucast (t ! unat (v AND 255))"

definition f :: "kbox \<Rightarrow> word64 \<Rightarrow> word64" where
  "f kb x =
     (let y = drop_bit 32 x;
          z = x AND 0xffffffff;
          y' = push_bit 24 (sub8 (k87 kb) (drop_bit 24 y)) OR push_bit 16 (sub8 (k65 kb) (drop_bit 16 y))
               OR push_bit 8 (sub8 (k43 kb) (drop_bit 8 y)) OR sub8 (k21 kb) y;
          z' = push_bit 24 (sub8 (k175 kb) (drop_bit 24 z)) OR push_bit 16 (sub8 (k153 kb) (drop_bit 16 z))
               OR push_bit 8 (sub8 (k131 kb) (drop_bit 8 z)) OR sub8 (k109 kb) z;
          x' = push_bit 32 y' OR (z' AND 0xffffffff)
      in push_bit 11 x' OR drop_bit (64 - 11) x')"

text \<open>
  The loop of \<open>gostcrypt\<close>: \<open>i\<close> counts the 32 rounds, \<open>k\<close> is the running key
  index (\<open>key[k++]\<close>).
\<close>

function gostcrypt_loop :: "kbox \<Rightarrow> word64 list \<Rightarrow> nat \<Rightarrow> nat \<Rightarrow> word64 \<Rightarrow> word64 \<Rightarrow> word64 \<times> word64" where
  "gostcrypt_loop kb key i k a b =
     (if i < 32 then
        (let b' = b XOR f kb (a + key ! k);
             a' = a XOR f kb (b' + key ! (k + 1))
         in gostcrypt_loop kb key (i + 1) (k + 2) a' b')
      else (a, b))"
  by pat_completeness auto
termination
  by (relation "measure (\<lambda>(kb, key, i, k, a, b). 32 - i)") auto

declare gostcrypt_loop.simps [simp del]

definition gostcrypt :: "kbox \<Rightarrow> word64 \<times> word64 \<Rightarrow> word64 list \<Rightarrow> word64 \<times> word64" where
  "gostcrypt kb inw key =
     (case gostcrypt_loop kb key 0 0 (fst inw) (snd inw) of (a, b) \<Rightarrow> (b, a))"

text \<open>
  The loop of \<open>gostdecrypt\<close>: \<open>k\<close> is an \<open>int\<close> that starts at 63 and is
  decremented after each use (\<open>key[k--]\<close>); it is -1 when the loop ends.
\<close>

function gostdecrypt_loop :: "kbox \<Rightarrow> word64 list \<Rightarrow> nat \<Rightarrow> int \<Rightarrow> word64 \<Rightarrow> word64 \<Rightarrow> word64 \<times> word64" where
  "gostdecrypt_loop kb key i k a b =
     (if i < 32 then
        (let b' = b XOR f kb (a + key ! nat k);
             a' = a XOR f kb (b' + key ! nat (k - 1))
         in gostdecrypt_loop kb key (i + 1) (k - 2) a' b')
      else (a, b))"
  by pat_completeness auto
termination
  by (relation "measure (\<lambda>(kb, key, i, k, a, b). 32 - i)") auto

declare gostdecrypt_loop.simps [simp del]

definition gostdecrypt :: "kbox \<Rightarrow> word64 \<times> word64 \<Rightarrow> word64 list \<Rightarrow> word64 \<times> word64" where
  "gostdecrypt kb inw key =
     (case gostdecrypt_loop kb key 0 63 (fst inw) (snd inw) of (a, b) \<Rightarrow> (b, a))"

section \<open>SHA-256\<close>

record sha256_ctx =
  state :: "word32 list"
  bitlen :: word64
  data :: "byte list"
  datalen :: nat

definition ROTRIGHT :: "word32 \<Rightarrow> nat \<Rightarrow> word32" where
  "ROTRIGHT a b = drop_bit b a OR push_bit (32 - b) a"

definition CH :: "word32 \<Rightarrow> word32 \<Rightarrow> word32 \<Rightarrow> word32" where
  "CH x y z = (x AND y) XOR (NOT x AND z)"

definition MAJ :: "word32 \<Rightarrow> word32 \<Rightarrow> word32 \<Rightarrow> word32" where
  "MAJ x y z = (x AND y) XOR (x AND z) XOR (y AND z)"

definition EP0 :: "word32 \<Rightarrow> word32" where
  "EP0 x = ROTRIGHT x 2 XOR ROTRIGHT x 13 XOR ROTRIGHT x 22"

definition EP1 :: "word32 \<Rightarrow> word32" where
  "EP1 x = ROTRIGHT x 6 XOR ROTRIGHT x 11 XOR ROTRIGHT x 25"

definition SIG0 :: "word32 \<Rightarrow> word32" where
  "SIG0 x = ROTRIGHT x 7 XOR ROTRIGHT x 18 XOR drop_bit 3 x"

definition SIG1 :: "word32 \<Rightarrow> word32" where
  "SIG1 x = ROTRIGHT x 17 XOR ROTRIGHT x 19 XOR drop_bit 10 x"

text \<open>The table \<open>k256\<close>, a row of the source in each line.\<close>

definition k256 :: "word32 list" where
  "k256 = concat
   [[0x428a2f98,0x71374491,0xb5c0fbcf,0xe9b5dba5,0x3956c25b,0x59f111f1,0x923f82a4,0xab1c5ed5],
    [0xd807aa98,0x12835b01,0x243185be,0x550c7dc3,0x72be5d74,0x80deb1fe,0x9bdc06a7,0xc19bf174],
    [0xe49b69c1,0xefbe4786,0x0fc19dc6,0x240ca1cc,0x2de92c6f,0x4a7484aa,0x5cb0a9dc,0x76f988da],
    [0x983e5152,0xa831c66d,0xb00327c8,0xbf597fc7,0xc6e00bf3,0xd5a79147,0x06ca6351,0x14292967],
    [0x27b70a85,0x2e1b2138,0x4d2c6dfc,0x53380d13,0x650a7354,0x766a0abb,0x81c2c92e,0x92722c85],
    [0xa2bfe8a1,0xa81a664b,0xc24b8b70,0xc76c51a3,0xd192e819,0xd6990624,0xf40e3585,0x106aa070],
    [0x19a4c116,0x1e376c08,0x2748774c,0x34b0bcb5,0x391c0cb3,0x4ed8aa4a,0x5b9cca4f,0x682e6ff3],
    [0x748f82ee,0x78a5636f,0x84c87814,0x8cc70208,0x90befffa,0xa4506ceb,0xbef9a3f7,0xc67178f2]]"

text \<open>
  \<open>sha256_transform\<close>: the message schedule \<open>m[0..63]\<close>, the 64 rounds on
  \<open>a..h\<close>, and the addition into the state.
\<close>

definition sha256_m16 :: "byte list \<Rightarrow> word32 list" where
  "sha256_m16 d =
     map (\<lambda>i. push_bit 24 (ucast (d ! (4 * i))) OR push_bit 16 (ucast (d ! (4 * i + 1)))
              OR push_bit 8 (ucast (d ! (4 * i + 2))) OR ucast (d ! (4 * i + 3))) [0..<16]"

definition sha256_m :: "byte list \<Rightarrow> word32 list" where
  "sha256_m d =
     fold (\<lambda>i m. m @ [SIG1 (m ! (i - 2)) + m ! (i - 7) + SIG0 (m ! (i - 15)) + m ! (i - 16)])
       [16..<64] (sha256_m16 d)"

definition sha256_round :: "word32 list \<Rightarrow> nat \<Rightarrow> word32 list \<Rightarrow> word32 list" where
  "sha256_round m i v =
     (let a = v ! 0; b = v ! 1; c = v ! 2; d = v ! 3; e = v ! 4; ff = v ! 5; g = v ! 6; h = v ! 7;
          t1 = h + EP1 e + CH e ff g + k256 ! i + m ! i;
          t2 = EP0 a + MAJ a b c
      in [t1 + t2, a, b, c, d + t1, e, ff, g])"

definition sha256_transform :: "sha256_ctx \<Rightarrow> byte list \<Rightarrow> sha256_ctx" where
  "sha256_transform ctx d =
     (let m = sha256_m d;
          v = fold (sha256_round m) [0..<64] (take 8 (state ctx))
      in ctx\<lparr>state := map2 (+) (take 8 (state ctx)) v\<rparr>)"

text \<open>
  \<open>sha256_init\<close> leaves the \<open>data\<close> array as the caller allocated it; every
  position is written before it is read, so the model starts it with zeros.
\<close>

definition sha256_init :: sha256_ctx where
  "sha256_init =
     \<lparr> state = [0x6a09e667, 0xbb67ae85, 0x3c6ef372, 0xa54ff53a,
                 0x510e527f, 0x9b05688c, 0x1f83d9ab, 0x5be0cd19],
       bitlen = 0, data = replicate 64 0, datalen = 0 \<rparr>"

text \<open>One iteration of the loop of \<open>sha256_update\<close>.\<close>

definition sha256_update_byte :: "byte \<Rightarrow> sha256_ctx \<Rightarrow> sha256_ctx" where
  "sha256_update_byte b ctx =
     (let ctx1 = ctx\<lparr>data := (data ctx)[datalen ctx := b], datalen := datalen ctx + 1\<rparr>
      in if datalen ctx1 = 64 then
           (let ctx2 = sha256_transform ctx1 (data ctx1)
            in ctx2\<lparr>bitlen := bitlen ctx2 + 512, datalen := 0\<rparr>)
         else ctx1)"

text \<open>\<open>sha256_update(ctx, data, len)\<close>; the list is the \<open>len\<close> bytes at \<open>data\<close>.\<close>

definition sha256_update :: "sha256_ctx \<Rightarrow> byte list \<Rightarrow> sha256_ctx" where
  "sha256_update ctx bs = fold sha256_update_byte bs ctx"

definition sha256_final :: "sha256_ctx \<Rightarrow> byte list" where
  "sha256_final ctx =
     (let i = datalen ctx;
          ctx1 = ctx\<lparr>bitlen := bitlen ctx + of_nat (datalen ctx) * 8\<rparr>;
          ctx2 = ctx1\<lparr>data := (data ctx1)[i := 0x80]\<rparr>;
          i1 = i + 1;
          ctx3 = (if i1 > 56
                  then (let c = ctx2\<lparr>data := zero_fill (data ctx2) i1 64\<rparr>
                        in sha256_transform c (data c))
                  else ctx2);
          i2 = (if i1 > 56 then 0 else i1);
          ctx4 = ctx3\<lparr>data := zero_fill (data ctx3) i2 56\<rparr>;
          ctx5 = ctx4\<lparr>data := fold (\<lambda>j d. d[56 + (7 - j) := ucast (drop_bit (j * 8) (bitlen ctx4) AND 0xFF)])
                                   (rev [0..<8]) (data ctx4)\<rparr>;
          ctx6 = sha256_transform ctx5 (data ctx5)
      in concat (map (\<lambda>w. [ucast (drop_bit 24 w AND 0xFF), ucast (drop_bit 16 w AND 0xFF),
                             ucast (drop_bit 8 w AND 0xFF), ucast (w AND 0xFF)])
                     (take 8 (state ctx6))))"

section \<open>Utilities\<close>

text \<open>
  A 16-byte block and the two \<open>word64\<close> halves the cipher works on; \<open>in[2]\<close> and
  \<open>out[2]\<close> are pairs.
\<close>

definition be_bytes_to_words :: "byte list \<Rightarrow> word64 \<times> word64" where
  "be_bytes_to_words inb =
     (fold (\<lambda>i a. push_bit 8 a OR ucast (inb ! i)) [0..<8] 0,
      fold (\<lambda>i b. push_bit 8 b OR ucast (inb ! i)) [8..<16] 0)"

definition be_words_to_bytes :: "word64 \<times> word64 \<Rightarrow> byte list" where
  "be_words_to_bytes inw =
     map (\<lambda>i. ucast (drop_bit (i * 8) (fst inw) AND 0xFF)) (rev [0..<8]) @
     map (\<lambda>i. ucast (drop_bit (i * 8) (snd inw) AND 0xFF)) (rev [0..<8])"

text \<open>\<open>for (i = 0; i < BLOCK_SIZE; i++) buf[off+i] ^= prev[i]\<close>.\<close>

definition xor_block :: "byte list \<Rightarrow> nat \<Rightarrow> byte list \<Rightarrow> byte list" where
  "xor_block buf off prev = fold (\<lambda>i b. b[off + i := b ! (off + i) XOR prev ! i]) [0..<BLOCK_SIZE] buf"

text \<open>
  \<open>pkcs7_pad(buf, used, cap)\<close> returns the buffer and the new length, 0 when the
  padding does not fit.
\<close>

definition pkcs7_pad :: "byte list \<Rightarrow> nat \<Rightarrow> nat \<Rightarrow> byte list \<times> nat" where
  "pkcs7_pad buf used cap =
     (let pad = BLOCK_SIZE - (used mod BLOCK_SIZE)
      in if used + pad > cap then (buf, 0)
         else (buf_store buf used (replicate pad (of_nat pad)), used + pad))"

text \<open>The checking loop of \<open>pkcs7_unpad\<close>: False at the first byte that differs.\<close>

function pkcs7_unpad_loop :: "byte list \<Rightarrow> nat \<Rightarrow> byte \<Rightarrow> nat \<Rightarrow> bool" where
  "pkcs7_unpad_loop buf len pad i =
     (if i < unat pad then
        (if buf ! (len - 1 - i) \<noteq> pad then False else pkcs7_unpad_loop buf len pad (i + 1))
      else True)"
  by pat_completeness auto
termination
  by (relation "measure (\<lambda>(buf, len, pad, i). unat pad - i)") auto

declare pkcs7_unpad_loop.simps [simp del]

text \<open>\<open>pkcs7_unpad(buf, &len)\<close> returns its result and the new \<open>*len\<close>.\<close>

definition pkcs7_unpad :: "byte list \<Rightarrow> nat \<Rightarrow> bool \<times> nat" where
  "pkcs7_unpad buf len =
     (if len = 0 \<or> len mod BLOCK_SIZE \<noteq> 0 then (False, len)
      else (let pad = buf ! (len - 1)
            in if pad = 0 \<or> unat pad > BLOCK_SIZE then (False, len)
               else if \<not> pkcs7_unpad_loop buf len pad 0 then (False, len)
               else (True, len - unat pad)))"

section \<open>Files\<close>

text \<open>
  An input \<open>FILE\<close> is its content and the read position; an output \<open>FILE\<close> opened
  with \<open>"wb"\<close> is the bytes written so far. Reads and writes are those of a file system
  that does not fail: \<open>fread\<close> returns the bytes that are there, fewer than asked only at
  the end of the file, and \<open>fwrite\<close> writes all it is given and returns their number.
  File sizes are taken to fit a \<open>long\<close>, so \<open>ftell\<close> returns the position.
\<close>

record FILE_in =
  f_content :: "byte list"
  f_pos :: nat

definition fread :: "nat \<Rightarrow> FILE_in \<Rightarrow> byte list \<times> FILE_in" where
  "fread n fin =
     (let bs = take n (drop (f_pos fin) (f_content fin))
      in (bs, fin\<lparr>f_pos := f_pos fin + length bs\<rparr>))"

definition fseek_set :: "nat \<Rightarrow> FILE_in \<Rightarrow> FILE_in" where
  "fseek_set off fin = fin\<lparr>f_pos := off\<rparr>"

definition fseek_end :: "FILE_in \<Rightarrow> FILE_in" where
  "fseek_end fin = fin\<lparr>f_pos := length (f_content fin)\<rparr>"

definition ftell :: "FILE_in \<Rightarrow> int" where
  "ftell fin = int (f_pos fin)"

definition fwrite :: "byte list \<Rightarrow> byte list \<Rightarrow> nat \<times> byte list" where
  "fwrite bs fout = (length bs, fout @ bs)"

section \<open>CBC encryption of a stream\<close>

text \<open>
  The program reports every failure as \<open>*err = 1\<close>; the model names the place of the
  \<open>return\<close>.
\<close>

datatype error =
  IOError
  | InputTooSmall
  | InvalidCiphertextSize
  | ShortLastChunk
  | InvalidPadding
  | PaddingDoesNotFit

text \<open>
  The block loop \<open>for (off = 0; off < full; off += BLOCK_SIZE)\<close> of
  \<open>cbc_encrypt_stream\<close>, which the function has three times; it works on \<open>inbuf\<close>,
  \<open>outbuf\<close> and \<open>prev\<close>.
\<close>

function encrypt_blocks ::
  "kbox \<Rightarrow> word64 list \<Rightarrow> nat \<Rightarrow> nat \<Rightarrow> byte list \<Rightarrow> byte list \<Rightarrow> byte list
     \<Rightarrow> byte list \<times> byte list \<times> byte list" where
  "encrypt_blocks kb subkeys full off inbuf outbuf prev =
     (if off < full then
        (let inbuf1 = xor_block inbuf off prev;
             inw = be_bytes_to_words (buf_load inbuf1 off BLOCK_SIZE);
             outw = gostcrypt kb inw subkeys;
             outbuf1 = buf_store outbuf off (be_words_to_bytes outw);
             prev1 = buf_load outbuf1 off BLOCK_SIZE
         in encrypt_blocks kb subkeys full (off + BLOCK_SIZE) inbuf1 outbuf1 prev1)
      else (inbuf, outbuf, prev))"
  by pat_completeness auto
termination
  by (relation "measure (\<lambda>(kb, subkeys, full, off, inbuf, outbuf, prev). full - off)")
     (auto simp: BLOCK_SIZE_def)

declare encrypt_blocks.simps [simp del]

text \<open>
  The local state of \<open>cbc_encrypt_stream\<close>: the two files, the buffers, the chaining
  value, the hash context, and \<open>*err\<close> (\<open>None\<close> while it is 0).
\<close>

record enc_state =
  e_fin :: FILE_in
  e_fout :: "byte list"
  e_inbuf :: "byte list"
  e_outbuf :: "byte list"
  e_prev :: "byte list"
  e_hctx :: sha256_ctx
  e_err :: "error option"

text \<open>
  The block loop over \<open>full\<close> bytes, then \<open>fwrite(outbuf, 1, full, fout)\<close> (with its
  \<open>*err = 1; return\<close>) and \<open>sha256_update(&hctx, outbuf, full)\<close>.
\<close>

definition encrypt_chunk :: "kbox \<Rightarrow> word64 list \<Rightarrow> nat \<Rightarrow> enc_state \<Rightarrow> enc_state" where
  "encrypt_chunk kb subkeys full st =
     (case encrypt_blocks kb subkeys full 0 (e_inbuf st) (e_outbuf st) (e_prev st) of
        (inbuf1, outbuf1, prev1) \<Rightarrow>
          (case fwrite (buf_load outbuf1 0 full) (e_fout st) of
             (w, fout1) \<Rightarrow>
               (let st1 = st\<lparr>e_fout := fout1, e_inbuf := inbuf1, e_outbuf := outbuf1, e_prev := prev1\<rparr>
                in if w \<noteq> full then st1\<lparr>e_err := Some IOError\<rparr>
                   else st1\<lparr>e_hctx := sha256_update (e_hctx st1) (buf_load outbuf1 0 full)\<rparr>)))"

text \<open>\<open>size_t full = (r / BLOCK_SIZE) * BLOCK_SIZE\<close>.\<close>

definition whole_blocks :: "nat \<Rightarrow> nat" where
  "whole_blocks r = (r div BLOCK_SIZE) * BLOCK_SIZE"

text \<open>\<open>if (rem) memmove(inbuf, inbuf + full, rem)\<close>.\<close>

definition move_remainder :: "nat \<Rightarrow> nat \<Rightarrow> enc_state \<Rightarrow> enc_state" where
  "move_remainder full rem st =
     (if rem \<noteq> 0 then st\<lparr>e_inbuf := buf_store (e_inbuf st) 0 (buf_load (e_inbuf st) full rem)\<rparr>
      else st)"

text \<open>
  The second half of the loop body, under \<open>if (rem)\<close>: fill the buffer up, encrypt
  the whole blocks, keep the remainder and leave the loop with \<open>r = rem2\<close>.
\<close>

definition encrypt_refill :: "kbox \<Rightarrow> word64 list \<Rightarrow> nat \<Rightarrow> enc_state \<Rightarrow> nat \<times> enc_state" where
  "encrypt_refill kb subkeys rem st =
     (case fread (READ_CHUNK - rem) (e_fin st) of
        (bs, fin1) \<Rightarrow>
          (let got = length bs;
               st1 = st\<lparr>e_fin := fin1, e_inbuf := buf_store (e_inbuf st) rem bs\<rparr>;
               r = rem + got;
               full2 = whole_blocks r;
               rem2 = r - full2;
               st2 = encrypt_chunk kb subkeys full2 st1
           in if e_err st2 \<noteq> None then (r, st2)
              else (rem2, move_remainder full2 rem2 st2)))"

text \<open>
  The loop \<open>while ((r = fread(inbuf, 1, READ_CHUNK, fin)) == READ_CHUNK)\<close>. It returns
  the value of \<open>r\<close> and the state at its exit, or at the \<open>return\<close> that set \<open>*err\<close>;
  the measure of its termination is what is left of the input.
\<close>

function encrypt_loop :: "kbox \<Rightarrow> word64 list \<Rightarrow> enc_state \<Rightarrow> nat \<times> enc_state" where
  "encrypt_loop kb subkeys st =
     (case fread READ_CHUNK (e_fin st) of
        (bs, fin1) \<Rightarrow>
          (let r = length bs;
               st1 = st\<lparr>e_fin := fin1, e_inbuf := buf_store (e_inbuf st) 0 bs\<rparr>
           in if r = READ_CHUNK then
                (let full = whole_blocks r;
                     rem = r - full;
                     st2 = encrypt_chunk kb subkeys full st1
                 in if e_err st2 \<noteq> None then (r, st2)
                    else if rem \<noteq> 0 then encrypt_refill kb subkeys rem (move_remainder full rem st2)
                    else encrypt_loop kb subkeys (move_remainder full rem st2))
              else (r, st1)))"
  by pat_completeness auto
termination
proof (relation "measure (\<lambda>(kb, subkeys, st). length (f_content (e_fin st)) - f_pos (e_fin st))")
  show "wf (measure (\<lambda>(kb, subkeys, st). length (f_content (e_fin st)) - f_pos (e_fin st)))"
    by simp
next
  fix kb :: kbox and subkeys :: "word64 list" and st :: enc_state
    and x bs fin1 r st1 full rem st2
  assume rd: "(bs, fin1) = fread READ_CHUNK (e_fin st)"
    and r: "r = length bs"
    and st1: "st1 = st\<lparr>e_fin := fin1, e_inbuf := buf_store (e_inbuf st) 0 bs\<rparr>"
    and full: "r = READ_CHUNK"
    and ch: "st2 = encrypt_chunk kb subkeys full st1"
  have "e_fin st2 = fin1"
    using ch st1 by (auto simp: encrypt_chunk_def fwrite_def Let_def split: prod.splits)
  moreover have "f_content fin1 = f_content (e_fin st)" "f_pos fin1 = f_pos (e_fin st) + READ_CHUNK"
    using rd r full by (auto simp: fread_def Let_def)
  moreover have "f_pos (e_fin st) + READ_CHUNK \<le> length (f_content (e_fin st))"
    using rd r full by (auto simp: fread_def Let_def READ_CHUNK_def)
  ultimately show "((kb, subkeys, move_remainder full rem st2), kb, subkeys, st)
      \<in> measure (\<lambda>(kb, subkeys, st). length (f_content (e_fin st)) - f_pos (e_fin st))"
    by (auto simp add: move_remainder_def READ_CHUNK_def)
qed

declare encrypt_loop.simps [simp del]

text \<open>
  What \<open>cbc_encrypt_stream\<close> leaves behind: \<open>*err\<close>, the output file and \<open>out_hash\<close>
  (empty while nothing has been stored in it).
\<close>

record enc_result =
  enc_err :: "error option"
  enc_out :: "byte list"
  enc_hash :: "byte list"

text \<open>
  The state in which \<open>cbc_encrypt_stream\<close> enters its loop, after the IV has been
  written: \<open>memcpy(prev, iv, BLOCK_SIZE)\<close> and \<open>sha256_init(&hctx)\<close>.
\<close>

definition encrypt_start :: "FILE_in \<Rightarrow> byte list \<Rightarrow> byte list \<Rightarrow> enc_state" where
  "encrypt_start fin fout iv =
     \<lparr>e_fin = fin, e_fout = fout, e_inbuf = [], e_outbuf = [],
      e_prev = buf_load iv 0 BLOCK_SIZE, e_hctx = sha256_init, e_err = None\<rparr>"

definition cbc_encrypt_stream ::
  "kbox \<Rightarrow> FILE_in \<Rightarrow> byte list \<Rightarrow> word64 list \<Rightarrow> byte list \<Rightarrow> enc_result" where
  "cbc_encrypt_stream kb fin fout subkeys iv =
     (case fwrite (buf_load iv 0 BLOCK_SIZE) fout of
        (w, fout1) \<Rightarrow>
          if w \<noteq> BLOCK_SIZE then \<lparr>enc_err = Some IOError, enc_out = fout1, enc_hash = []\<rparr>
          else
            (case encrypt_loop kb subkeys (encrypt_start fin fout1 iv) of
                  (r, st1) \<Rightarrow>
                    if e_err st1 \<noteq> None
                    then \<lparr>enc_err = e_err st1, enc_out = e_fout st1, enc_hash = []\<rparr>
                    else
                      (let tail = r
                       in case pkcs7_pad (e_inbuf st1) tail (READ_CHUNK + BLOCK_SIZE) of
                            (inbuf1, total_len) \<Rightarrow>
                              if total_len = 0
                              then \<lparr>enc_err = Some PaddingDoesNotFit, enc_out = e_fout st1, enc_hash = []\<rparr>
                              else
                                (let st2 = encrypt_chunk kb subkeys total_len (st1\<lparr>e_inbuf := inbuf1\<rparr>)
                                 in if e_err st2 \<noteq> None
                                    then \<lparr>enc_err = e_err st2, enc_out = e_fout st2, enc_hash = []\<rparr>
                                    else
                                      (let out_hash = sha256_final (e_hctx st2)
                                       in case fwrite (buf_load out_hash 0 32) (e_fout st2) of
                                            (w2, fout2) \<Rightarrow>
                                              if w2 \<noteq> 32
                                              then \<lparr>enc_err = Some IOError, enc_out = fout2, enc_hash = out_hash\<rparr>
                                              else \<lparr>enc_err = None, enc_out = fout2, enc_hash = out_hash\<rparr>)))))"

section \<open>CBC decryption of a stream\<close>

text \<open>
  The block loop \<open>for (off = 0; off < r; off += BLOCK_SIZE)\<close> of
  \<open>cbc_decrypt_stream\<close>; \<open>inbuf\<close> is only read.
\<close>

function decrypt_blocks ::
  "kbox \<Rightarrow> word64 list \<Rightarrow> nat \<Rightarrow> nat \<Rightarrow> byte list \<Rightarrow> byte list \<Rightarrow> byte list
     \<Rightarrow> byte list \<times> byte list" where
  "decrypt_blocks kb subkeys r off inbuf outbuf prev =
     (if off < r then
        (let cpy = buf_load inbuf off BLOCK_SIZE;
             inw = be_bytes_to_words (buf_load inbuf off BLOCK_SIZE);
             outw = gostdecrypt kb inw subkeys;
             outbuf1 = buf_store outbuf off (be_words_to_bytes outw);
             outbuf2 = xor_block outbuf1 off prev;
             prev1 = cpy
         in decrypt_blocks kb subkeys r (off + BLOCK_SIZE) inbuf outbuf2 prev1)
      else (outbuf, prev))"
  by pat_completeness auto
termination
  by (relation "measure (\<lambda>(kb, subkeys, r, off, inbuf, outbuf, prev). r - off)")
     (auto simp: BLOCK_SIZE_def)

declare decrypt_blocks.simps [simp del]

record dec_state =
  d_fin :: FILE_in
  d_fout :: "byte list"
  d_inbuf :: "byte list"
  d_outbuf :: "byte list"
  d_prev :: "byte list"
  d_hctx :: sha256_ctx
  d_remaining :: int
  d_err :: "error option"

text \<open>
  The \<open>else\<close> branch of the loop body, for the last chunk: write all but the last
  block, check the padding of the last block, write what is left of it.
\<close>

definition decrypt_last :: "nat \<Rightarrow> dec_state \<Rightarrow> dec_state" where
  "decrypt_last r st =
     (if r < BLOCK_SIZE then st\<lparr>d_err := Some ShortLastChunk\<rparr>
      else
        (let keep = r - BLOCK_SIZE;
             st1 = (if keep \<noteq> 0
                    then (case fwrite (buf_load (d_outbuf st) 0 keep) (d_fout st) of
                            (w, fout1) \<Rightarrow>
                              if w \<noteq> keep then st\<lparr>d_fout := fout1, d_err := Some IOError\<rparr>
                              else st\<lparr>d_fout := fout1\<rparr>)
                    else st)
         in if d_err st1 \<noteq> None then st1
            else
              (let lastblk = buf_load (d_outbuf st1) keep BLOCK_SIZE
               in case pkcs7_unpad lastblk BLOCK_SIZE of
                    (ok, lastlen) \<Rightarrow>
                      if \<not> ok then st1\<lparr>d_err := Some InvalidPadding\<rparr>
                      else if lastlen \<noteq> 0
                      then (case fwrite (buf_load lastblk 0 lastlen) (d_fout st1) of
                              (w, fout1) \<Rightarrow>
                                if w \<noteq> lastlen then st1\<lparr>d_fout := fout1, d_err := Some IOError\<rparr>
                                else st1\<lparr>d_fout := fout1\<rparr>)
                      else st1)))"

text \<open>
  The size \<open>toread\<close> of the next chunk: \<open>READ_CHUNK\<close> or what remains, rounded
  down to whole blocks.
\<close>

definition chunk_size :: "int \<Rightarrow> nat" where
  "chunk_size remaining =
     (let toread = (if remaining > int READ_CHUNK then READ_CHUNK else nat remaining)
      in if toread mod BLOCK_SIZE \<noteq> 0 then toread - toread mod BLOCK_SIZE else toread)"

text \<open>
  One pass of the body of \<open>while (remaining > 0)\<close>: the state after it, with \<open>d_err\<close>
  set where the body returns.
\<close>

definition decrypt_body :: "kbox \<Rightarrow> word64 list \<Rightarrow> dec_state \<Rightarrow> dec_state" where
  "decrypt_body kb subkeys st =
     (let toread = chunk_size (d_remaining st)
      in case fread toread (d_fin st) of
           (bs, fin1) \<Rightarrow>
             (let r = length bs;
                  st1 = st\<lparr>d_fin := fin1, d_inbuf := buf_store (d_inbuf st) 0 bs\<rparr>
              in if r \<noteq> toread then st1\<lparr>d_err := Some IOError\<rparr>
                 else
                   (let st2 = st1\<lparr>d_hctx := sha256_update (d_hctx st1) (buf_load (d_inbuf st1) 0 r)\<rparr>
                    in case decrypt_blocks kb subkeys r 0 (d_inbuf st2) (d_outbuf st2) (d_prev st2) of
                         (outbuf1, prev1) \<Rightarrow>
                           (let st3 = st2\<lparr>d_outbuf := outbuf1, d_prev := prev1,
                                           d_remaining := d_remaining st2 - int r\<rparr>
                            in if d_remaining st3 > 0 then
                                 (case fwrite (buf_load (d_outbuf st3) 0 r) (d_fout st3) of
                                    (w, fout1) \<Rightarrow>
                                      if w \<noteq> r then st3\<lparr>d_fout := fout1, d_err := Some IOError\<rparr>
                                      else st3\<lparr>d_fout := fout1\<rparr>)
                               else decrypt_last r st3))))"

text \<open>
  The loop \<open>while (remaining > 0)\<close>. A chunk of no bytes would leave \<open>remaining\<close> as
  it is, so the loop is a partial function: \<open>None\<close> is the loop that does not end.
\<close>

partial_function (option) decrypt_loop :: "kbox \<Rightarrow> word64 list \<Rightarrow> dec_state \<Rightarrow> dec_state option" where
  "decrypt_loop kb subkeys st =
     (if d_remaining st > 0 then
        (let st1 = decrypt_body kb subkeys st
         in if d_err st1 \<noteq> None then Some st1
            else decrypt_loop kb subkeys st1)
      else Some st)"

record dec_result =
  dec_err :: "error option"
  dec_auth_ok :: bool
  dec_out :: "byte list"

text \<open>The state in which \<open>cbc_decrypt_stream\<close> enters its loop.\<close>

definition decrypt_start :: "FILE_in \<Rightarrow> byte list \<Rightarrow> byte list \<Rightarrow> int \<Rightarrow> dec_state" where
  "decrypt_start fin fout iv remaining =
     \<lparr>d_fin = fin, d_fout = fout, d_inbuf = [], d_outbuf = [], d_prev = iv,
      d_hctx = sha256_init, d_remaining = remaining, d_err = None\<rparr>"

definition cbc_decrypt_stream :: "kbox \<Rightarrow> FILE_in \<Rightarrow> byte list \<Rightarrow> word64 list \<Rightarrow> dec_result option" where
  "cbc_decrypt_stream kb fin fout subkeys =
     (let fin1 = fseek_end fin;
          fsz = ftell fin1
      in if fsz < int (BLOCK_SIZE + 32)
         then Some \<lparr>dec_err = Some InputTooSmall, dec_auth_ok = False, dec_out = fout\<rparr>
         else
           (let payload = fsz - 32;
                fin2 = fseek_set 0 fin1
            in case fread BLOCK_SIZE fin2 of
                 (iv, fin3) \<Rightarrow>
                   if length iv \<noteq> BLOCK_SIZE
                   then Some \<lparr>dec_err = Some IOError, dec_auth_ok = False, dec_out = fout\<rparr>
                   else
                     (case fread 32 (fseek_set (nat payload) fin3) of
                        (stored_hash, fin4) \<Rightarrow>
                          if length stored_hash \<noteq> 32
                          then Some \<lparr>dec_err = Some IOError, dec_auth_ok = False, dec_out = fout\<rparr>
                          else
                            (let fin5 = fseek_set BLOCK_SIZE fin4;
                                 remaining = payload - int BLOCK_SIZE
                             in if remaining \<le> 0 \<or> remaining mod int BLOCK_SIZE \<noteq> 0
                                then Some \<lparr>dec_err = Some InvalidCiphertextSize, dec_auth_ok = False,
                                           dec_out = fout\<rparr>
                                else
                                  (case decrypt_loop kb subkeys (decrypt_start fin5 fout iv remaining) of
                                     None \<Rightarrow> None
                                   | Some st \<Rightarrow>
                                       if d_err st \<noteq> None
                                       then Some \<lparr>dec_err = d_err st, dec_auth_ok = False, dec_out = d_fout st\<rparr>
                                       else
                                         (let calc_hash = sha256_final (d_hctx st)
                                          in Some \<lparr>dec_err = None,
                                                   dec_auth_ok = (buf_load calc_hash 0 32 = buf_load stored_hash 0 32),
                                                   dec_out = d_fout st\<rparr>))))))"

section \<open>The program\<close>

text \<open>
  \<open>main\<close> keeps the password in \<open>char password[256]\<close> and the key schedule in
  \<open>word64 subkeys[64]\<close>. A cell of memory is as it was allocated, holds what the program
  stored in it, or has been overwritten with zeros by \<open>memset\<close>.
\<close>

datatype 'a cell = Unset | Holds 'a | Zeroed

text \<open>
  What a run leaves behind: the exit code, the output file (\<open>None\<close> when it was not
  created or has been removed), the authentication line printed (\<open>Some True\<close> for
  \<open>Authentication OK\<close>), and the two cells at the \<open>return\<close>.
\<close>

record main_result =
  exit_code :: int
  output_file :: "byte list option"
  auth_report :: "bool option"
  password_cell :: "byte list cell"
  subkeys_cell :: "word64 list cell"

definition early_exit :: "int \<Rightarrow> main_result" where
  "early_exit c =
     \<lparr>exit_code = c, output_file = None, auth_report = None, password_cell = Unset, subkeys_cell = Unset\<rparr>"

text \<open>
  The inputs of \<open>main\<close>: \<open>argv\<close>; the content of the input file (\<open>None\<close> when
  \<open>fopen\<close> fails); whether the output file can be created; the password that
  \<open>prompt_password\<close> returns, as the bytes of the C string; and the IV that
  \<open>generate_iv\<close> returns. These are the runs in which \<open>prompt_password\<close> returns; the
  call itself, which can end the process, is in \<open>main_memory\<close> below.
\<close>

definition main :: "string list \<Rightarrow> byte list option \<Rightarrow> bool \<Rightarrow> byte list \<Rightarrow> byte list \<Rightarrow> main_result option" where
  "main argv input output_ok typed iv =
     (if length argv \<noteq> 3 then Some (early_exit 1)
      else
        (let mode_encrypt = (argv ! 1 = ''c'');
             mode_decrypt = (argv ! 1 \<noteq> ''c'' \<and> argv ! 1 = ''d'')
         in if \<not> mode_encrypt \<and> \<not> mode_decrypt then Some (early_exit 1)
            else
              (case input of
                 None \<Rightarrow> Some (early_exit 1)
               | Some content \<Rightarrow>
                   if \<not> output_ok then Some (early_exit 1)
                   else
                     (let password = Holds typed;
                          kb = kboxinit
                      in case derive_gost_subkeys_from_password typed keyhash_static of
                           None \<Rightarrow> None
                         | Some (ks, g) \<Rightarrow>
                             (let subkeys = Holds ks;
                                  password1 = (Zeroed :: byte list cell);
                                  fin = \<lparr>f_content = content, f_pos = 0\<rparr>
                              in if mode_encrypt then
                                   (let res = cbc_encrypt_stream kb fin [] ks iv
                                    in if enc_err res \<noteq> None
                                       then Some \<lparr>exit_code = 2, output_file = None, auth_report = None,
                                                  password_cell = password1, subkeys_cell = subkeys\<rparr>
                                       else Some \<lparr>exit_code = 0, output_file = Some (enc_out res),
                                                  auth_report = None,
                                                  password_cell = password1, subkeys_cell = subkeys\<rparr>)
                                 else
                                   (case cbc_decrypt_stream kb fin [] ks of
                                      None \<Rightarrow> None
                                    | Some res \<Rightarrow>
                                        if dec_err res \<noteq> None
                                        then Some \<lparr>exit_code = 2, output_file = None, auth_report = None,
                                                   password_cell = password1, subkeys_cell = subkeys\<rparr>
                                        else Some \<lparr>exit_code = 0, output_file = Some (dec_out res),
                                                   auth_report = Some (dec_auth_ok res),
                                                   password_cell = password1, subkeys_cell = subkeys\<rparr>))))))"

section \<open>The password prompt and the two secret buffers of \<open>main\<close>\<close>

text \<open>
  \<open>prompt_password\<close> has two bodies, chosen by \<open>_WIN32\<close>. The console is the build
  together with what it delivers: the values that the calls of \<open>_getch()\<close> return, or the
  bytes that are left on \<open>stdin\<close>. A list that ends is the end of the input.
\<close>

datatype console = Win32 "int list" | Posix "byte list"

text \<open>
  How \<open>prompt_password\<close> ends, with the buffer \<open>buf\<close> as it then is: by its \<open>return\<close>, or
  by \<open>exit(1)\<close>, which ends the process.
\<close>

datatype prompt_end = Returned "byte list" | Exited "byte list"

text \<open>
  The \<open>_WIN32\<close> body: \<open>while ((ch = _getch()) != '\r' && ch != '\n' && ch != EOF)\<close> with
  \<open>if (ch == 3) exit(1)\<close>, the backspace and \<open>if (idx+1 < buflen) buf[idx++] = (char)ch\<close>,
  then \<open>buf[idx] = '\0'\<close>.
\<close>

fun getch_loop :: "byte list \<Rightarrow> nat \<Rightarrow> nat \<Rightarrow> int list \<Rightarrow> prompt_end" where
  "getch_loop buf buflen idx [] = Returned (buf[idx := 0])"
| "getch_loop buf buflen idx (ch # keys) =
     (if ch = 13 \<or> ch = 10 \<or> ch = - 1 then Returned (buf[idx := 0])
      else if ch = 3 then Exited buf
      else if ch = 8 then getch_loop buf buflen (if idx > 0 then idx - 1 else idx) keys
      else if idx + 1 < buflen then getch_loop (buf[idx := of_int ch]) buflen (idx + 1) keys
      else getch_loop buf buflen idx keys)"

text \<open>
  \<open>fgets(buf, n, stdin)\<close>: the characters read, at most \<open>n - 1\<close> and none after a
  newline; \<open>None\<close> is the null pointer, returned at the end of the input.
\<close>

definition fgets :: "nat \<Rightarrow> byte list \<Rightarrow> byte list option" where
  "fgets n inp =
     (if inp = [] then None
      else (let l = takeWhile (\<lambda>c. c \<noteq> 10) inp
            in Some (take (n - 1) (if length l < length inp then l @ [10] else l))))"

definition strlen :: "byte list \<Rightarrow> nat" where
  "strlen s = length (takeWhile (\<lambda>c. c \<noteq> 0) s)"

text \<open>The bytes of the C string in a buffer, which \<open>hashing\<close> is given with their number.\<close>

definition c_string :: "byte list \<Rightarrow> byte list" where
  "c_string s = take (strlen s) s"

text \<open>
  The other body: \<open>fgets\<close>, with \<open>buf[0] = '\0'\<close> when it returns the null pointer, and
  the newline stripped. The terminal settings are left out.
\<close>

definition prompt_posix :: "byte list \<Rightarrow> nat \<Rightarrow> byte list \<Rightarrow> byte list" where
  "prompt_posix buf buflen inp =
     (let buf1 = (case fgets buflen inp of
                    None \<Rightarrow> buf[0 := 0]
                  | Some s \<Rightarrow> buf_store buf 0 (s @ [0]));
          l = strlen buf1
      in if l > 0 \<and> (buf1 ! (l - 1) = 10 \<or> buf1 ! (l - 1) = 13) then buf1[l - 1 := 0] else buf1)"

definition prompt_password :: "console \<Rightarrow> byte list \<Rightarrow> nat \<Rightarrow> prompt_end" where
  "prompt_password con buf buflen =
     (case con of
        Win32 keys \<Rightarrow> getch_loop buf buflen 0 keys
      | Posix inp \<Rightarrow> Returned (prompt_posix buf buflen inp))"

text \<open>\<open>memset(s, c, n)\<close>.\<close>

definition memset :: "byte list \<Rightarrow> byte \<Rightarrow> nat \<Rightarrow> byte list" where
  "memset s c n = replicate n c @ drop n s"

text \<open>
  The content of \<open>char password[256]\<close> and of \<open>word64 subkeys[64]\<close>. The calls of \<open>main\<close>
  that are given one of them are, in the order of the source, \<open>prompt_password\<close>,
  \<open>derive_gost_subkeys_from_password\<close>, \<open>memset\<close> and one of \<open>cbc_encrypt_stream\<close> and
  \<open>cbc_decrypt_stream\<close>.
\<close>

record memory =
  m_password :: "byte list"
  m_subkeys :: "word64 list"

datatype buffer = Password | Subkeys

datatype call = Call_prompt_password | Call_derive | Call_memset buffer | Call_cbc_encrypt | Call_cbc_decrypt

text \<open>
  \<open>main\<close> with the call of \<open>prompt_password\<close> and with the memory of the two buffers:
  \<open>m0\<close> is what the two arrays hold before they are written. The result is the exit
  status of the process and the calls made, each with the memory after it and, for the
  call that ends the process, the memory at the \<open>exit\<close>. From the return of
  \<open>prompt_password\<close> on, the run is the one of \<open>main\<close> above with the C string of the
  buffer as the password.
\<close>

definition main_memory ::
  "console \<Rightarrow> string list \<Rightarrow> byte list option \<Rightarrow> bool \<Rightarrow> memory \<Rightarrow> byte list
     \<Rightarrow> (int \<times> (call \<times> memory) list) option" where
  "main_memory con argv input output_ok m0 iv =
     (if length argv \<noteq> 3 then Some (1, [])
      else if argv ! 1 \<noteq> ''c'' \<and> argv ! 1 \<noteq> ''d'' then Some (1, [])
      else if input = None then Some (1, [])
      else if \<not> output_ok then Some (1, [])
      else
        (case prompt_password con (m_password m0) 256 of
           Exited buf \<Rightarrow> Some (1, [(Call_prompt_password, m0\<lparr>m_password := buf\<rparr>)])
         | Returned buf \<Rightarrow>
             (let m1 = m0\<lparr>m_password := buf\<rparr>
              in case derive_gost_subkeys_from_password (c_string (m_password m1)) keyhash_static of
                   None \<Rightarrow> None
                 | Some (ks, g) \<Rightarrow>
                     (let m2 = m1\<lparr>m_subkeys := ks\<rparr>;
                          m3 = m2\<lparr>m_password := memset (m_password m2) 0 256\<rparr>
                      in case main argv input output_ok (c_string buf) iv of
                           None \<Rightarrow> None
                         | Some r \<Rightarrow>
                             Some (exit_code r,
                                   [(Call_prompt_password, m1), (Call_derive, m2),
                                    (Call_memset Password, m3),
                                    (if argv ! 1 = ''c'' then Call_cbc_encrypt else Call_cbc_decrypt,
                                     m3)])))))"

section \<open>Functions of the specification\<close>

text \<open>
  The functions below are not translations of the program. They state, in the words of the
  specification, what the program is to compute, and the theorems compare them with the
  functions above.
\<close>

subsection \<open>The block cipher\<close>

text \<open>The state \<open>(a, b)\<close> after the first \<open>m\<close> rounds of the encryption.\<close>

primrec enc_rounds :: "kbox \<Rightarrow> word64 list \<Rightarrow> nat \<Rightarrow> word64 \<times> word64 \<Rightarrow> word64 \<times> word64" where
  "enc_rounds kb key 0 s = s"
| "enc_rounds kb key (Suc m) s =
     (case enc_rounds kb key m s of (a, b) \<Rightarrow>
        (let b' = b XOR f kb (a + key ! (2 * m));
             a' = a XOR f kb (b' + key ! (2 * m + 1))
         in (a', b')))"

text \<open>The eight bytes of a 64-bit value, the most significant first, and back.\<close>

definition spec_bytes :: "word64 \<Rightarrow> byte list" where
  "spec_bytes x = map (\<lambda>j. ucast (drop_bit (8 * j) x)) [7, 6, 5, 4, 3, 2, 1, 0]"

definition spec_word :: "byte list \<Rightarrow> word64" where
  "spec_word bs = foldl (\<lambda>w b. push_bit 8 w OR ucast b) 0 bs"

definition spec_subst :: "byte list list \<Rightarrow> byte list \<Rightarrow> byte list" where
  "spec_subst ts bs = map2 (\<lambda>t b. t ! unat b) ts bs"

text \<open>
  The round function: the four bytes of the high half through four tables, the four bytes
  of the low half through the other four, reassembled and rotated left by 11.
\<close>

definition spec_f :: "kbox \<Rightarrow> word64 \<Rightarrow> word64" where
  "spec_f kb x =
     (let bs = spec_bytes x;
          y = take 4 bs;
          z = drop 4 bs;
          y' = spec_subst [k87 kb, k65 kb, k43 kb, k21 kb] y;
          z' = spec_subst [k175 kb, k153 kb, k131 kb, k109 kb] z
      in word_rotl 11 (spec_word (y' @ z')))"

text \<open>Addition modulo \<open>2^64\<close>.\<close>

definition spec_add64 :: "word64 \<Rightarrow> word64 \<Rightarrow> word64" where
  "spec_add64 a k = word_of_nat ((unat a + unat k) mod 2 ^ 64)"

text \<open>Round \<open>i\<close>: \<open>b ^= f(a + subkeys[2i])\<close>, then \<open>a ^= f(b + subkeys[2i+1])\<close>.\<close>

definition spec_round :: "kbox \<Rightarrow> word64 list \<Rightarrow> nat \<Rightarrow> word64 \<times> word64 \<Rightarrow> word64 \<times> word64" where
  "spec_round kb subkeys i s =
     (case s of (a, b) \<Rightarrow>
        (let b' = b XOR spec_f kb (spec_add64 a (subkeys ! (2 * i)));
             a' = a XOR spec_f kb (spec_add64 b' (subkeys ! (2 * i + 1)))
         in (a', b')))"

text \<open>32 rounds, and the halves swapped in the output.\<close>

definition spec_encrypt_block :: "kbox \<Rightarrow> word64 \<times> word64 \<Rightarrow> word64 list \<Rightarrow> word64 \<times> word64" where
  "spec_encrypt_block kb x subkeys =
     (case fold (spec_round kb subkeys) [0..<32] x of (a, b) \<Rightarrow> (b, a))"

subsection \<open>Subkey derivation\<close>

text \<open>
  The padding that the finalization feeds to the hash: as many bytes as the window has
  room left, each of them that number, which a byte holds modulo 256.
\<close>

definition spec_pad :: "keyhash \<Rightarrow> byte list" where
  "spec_pad g = replicate (n1 - x2 g) (of_nat ((n1 - x2 g) mod 256))"

text \<open>A big-endian unsigned integer, and the 64 subkeys sliced from the 512-byte digest.\<close>

definition spec_be_uint :: "byte list \<Rightarrow> nat" where
  "spec_be_uint bs = foldl (\<lambda>n b. 256 * n + unat b) 0 bs"

definition spec_subkeys :: "byte list \<Rightarrow> word64 list" where
  "spec_subkeys digest = map (\<lambda>i. of_nat (spec_be_uint (take 8 (drop (8 * i) digest)))) [0..<64]"

text \<open>The key schedule that \<open>main\<close> derives from a password.\<close>

definition derived_subkeys :: "byte list \<Rightarrow> word64 list" where
  "derived_subkeys password =
     (case derive_gost_subkeys_from_password password keyhash_static of
        Some (ks, g) \<Rightarrow> ks
      | None \<Rightarrow> [])"

subsection \<open>Cipher block chaining\<close>

definition xor_bytes :: "byte list \<Rightarrow> byte list \<Rightarrow> byte list" where
  "xor_bytes xs ys = map2 (XOR) xs ys"

text \<open>
  One block of the chain: the plaintext block is combined with \<open>prev\<close> and encrypted;
  the ciphertext block is decrypted and combined with \<open>prev\<close>.
\<close>

definition cbc_encrypt_block :: "kbox \<Rightarrow> word64 list \<Rightarrow> byte list \<Rightarrow> byte list \<Rightarrow> byte list" where
  "cbc_encrypt_block kb subkeys prev x =
     be_words_to_bytes (gostcrypt kb (be_bytes_to_words (xor_bytes x prev)) subkeys)"

definition cbc_decrypt_block :: "kbox \<Rightarrow> word64 list \<Rightarrow> byte list \<Rightarrow> byte list \<Rightarrow> byte list" where
  "cbc_decrypt_block kb subkeys prev c =
     xor_bytes (be_words_to_bytes (gostdecrypt kb (be_bytes_to_words c) subkeys)) prev"

text \<open>
  The ciphertext of the first \<open>n\<close> blocks of \<open>bs\<close>, chained from \<open>prev\<close>, and the
  chaining value after them (the last ciphertext block).
\<close>

primrec cbc_enc :: "kbox \<Rightarrow> word64 list \<Rightarrow> nat \<Rightarrow> byte list \<Rightarrow> byte list \<Rightarrow> byte list" where
  "cbc_enc kb subkeys 0 prev bs = []"
| "cbc_enc kb subkeys (Suc n) prev bs =
     (let c = cbc_encrypt_block kb subkeys prev (take 16 bs)
      in c @ cbc_enc kb subkeys n c (drop 16 bs))"

primrec cbc_enc_prev :: "kbox \<Rightarrow> word64 list \<Rightarrow> nat \<Rightarrow> byte list \<Rightarrow> byte list \<Rightarrow> byte list" where
  "cbc_enc_prev kb subkeys 0 prev bs = prev"
| "cbc_enc_prev kb subkeys (Suc n) prev bs =
     cbc_enc_prev kb subkeys n (cbc_encrypt_block kb subkeys prev (take 16 bs)) (drop 16 bs)"

text \<open>
  The plaintext of the first \<open>n\<close> blocks of \<open>cs\<close>, chained from \<open>prev\<close>, and the
  chaining value after them (the last ciphertext block consumed).
\<close>

primrec cbc_dec :: "kbox \<Rightarrow> word64 list \<Rightarrow> nat \<Rightarrow> byte list \<Rightarrow> byte list \<Rightarrow> byte list" where
  "cbc_dec kb subkeys 0 prev cs = []"
| "cbc_dec kb subkeys (Suc n) prev cs =
     cbc_decrypt_block kb subkeys prev (take 16 cs) @ cbc_dec kb subkeys n (take 16 cs) (drop 16 cs)"

primrec cbc_dec_prev :: "nat \<Rightarrow> byte list \<Rightarrow> byte list \<Rightarrow> byte list" where
  "cbc_dec_prev 0 prev cs = prev"
| "cbc_dec_prev (Suc n) prev cs = cbc_dec_prev n (take 16 cs) (drop 16 cs)"

text \<open>
  Unconditional padding: 1 to 16 bytes, each the number of bytes added; and the rule
  that the last block of a decrypted stream has to meet.
\<close>

definition pad_length :: "nat \<Rightarrow> nat" where
  "pad_length len = 16 - len mod 16"

definition padded :: "byte list \<Rightarrow> byte list" where
  "padded p = p @ replicate (pad_length (length p)) (of_nat (pad_length (length p)))"

definition valid_padding :: "byte list \<Rightarrow> bool" where
  "valid_padding blk =
     (1 \<le> unat (last blk) \<and> unat (last blk) \<le> 16 \<and>
      list_all (\<lambda>b. b = last blk) (drop (length blk - unat (last blk)) blk))"

text \<open>The digest of a byte sequence, and the encrypted container of the file format.\<close>

definition sha256 :: "byte list \<Rightarrow> byte list" where
  "sha256 bs = sha256_final (sha256_update sha256_init bs)"

definition ciphertext :: "kbox \<Rightarrow> word64 list \<Rightarrow> byte list \<Rightarrow> byte list \<Rightarrow> byte list" where
  "ciphertext kb subkeys iv p = cbc_enc kb subkeys (length (padded p) div 16) iv (padded p)"

definition container :: "kbox \<Rightarrow> word64 list \<Rightarrow> byte list \<Rightarrow> byte list \<Rightarrow> byte list" where
  "container kb subkeys iv p = iv @ ciphertext kb subkeys iv p @ sha256 (ciphertext kb subkeys iv p)"

subsection \<open>The states of the decryption loop\<close>

text \<open>
  \<open>decrypt_reaches kb subkeys st0 st\<close>: the loop \<open>while (remaining > 0)\<close>, entered in
  the state \<open>st0\<close>, is at its head in the state \<open>st\<close> after some passes of its body,
  none of which has returned with an error.
\<close>

inductive decrypt_reaches :: "kbox \<Rightarrow> word64 list \<Rightarrow> dec_state \<Rightarrow> dec_state \<Rightarrow> bool"
  for kb :: kbox and subkeys :: "word64 list" and st0 :: dec_state where
  start: "decrypt_reaches kb subkeys st0 st0"
| pass: "decrypt_reaches kb subkeys st0 st \<Longrightarrow> d_remaining st > 0 \<Longrightarrow>
         d_err (decrypt_body kb subkeys st) = None \<Longrightarrow>
         decrypt_reaches kb subkeys st0 (decrypt_body kb subkeys st)"

section \<open>Properties of the block cipher\<close>

lemma gostcrypt_loop_rounds:
  "i \<le> 32 \<Longrightarrow> enc_rounds kb key i s = (a, b) \<Longrightarrow>
   gostcrypt_loop kb key i (2 * i) a b = enc_rounds kb key 32 s"
proof (induction "32 - i" arbitrary: i a b)
  case 0
  then have "i = 32" by simp
  with 0 show ?case by (simp add: gostcrypt_loop.simps)
next
  case (Suc n)
  then have lt: "i < 32" by simp
  let ?b = "b XOR f kb (a + key ! (2 * i))"
  let ?a = "a XOR f kb (?b + key ! (2 * i + 1))"
  have step: "enc_rounds kb key (Suc i) s = (?a, ?b)"
    using Suc.prems(2) by (simp add: Let_def)
  have "gostcrypt_loop kb key (Suc i) (2 * Suc i) ?a ?b = enc_rounds kb key 32 s"
    using Suc.hyps(1)[of "Suc i" ?a ?b] Suc.hyps(2) lt step by simp
  then show ?case
    using lt by (subst gostcrypt_loop.simps) (simp add: Let_def)
qed

lemma gostdecrypt_loop_rounds:
  "m \<le> 32 \<Longrightarrow> enc_rounds kb key m s = (a, b) \<Longrightarrow>
   gostdecrypt_loop kb key (32 - m) (2 * int m - 1) b a = (snd s, fst s)"
proof (induction m arbitrary: a b)
  case 0
  then show ?case by (simp add: gostdecrypt_loop.simps)
next
  case (Suc m)
  obtain a0 b0 where e: "enc_rounds kb key m s = (a0, b0)" by (cases "enc_rounds kb key m s")
  let ?b = "b0 XOR f kb (a0 + key ! (2 * m))"
  let ?a = "a0 XOR f kb (?b + key ! (2 * m + 1))"
  have ab: "a = ?a" "b = ?b" using Suc.prems(2) e by (auto simp add: Let_def)
  have ih: "gostdecrypt_loop kb key (32 - m) (2 * int m - 1) b0 a0 = (snd s, fst s)"
    using Suc.IH[OF _ e] Suc.prems(1) by simp
  have i: "32 - Suc m < 32" "32 - Suc m + 1 = 32 - m" using Suc.prems(1) by simp_all
  have k: "nat (2 * int (Suc m) - 1) = 2 * m + 1" "nat (2 * int (Suc m) - 1 - 1) = 2 * m"
    "2 * int (Suc m) - 1 - 2 = 2 * int m - 1" by simp_all
  show ?case
    apply (subst gostdecrypt_loop.simps)
    apply (simp only: i k if_True Let_def ab)
    apply (simp add: ih word_bw_assocs)
    done
qed

lemma gost_block_roundtrip: "gostdecrypt kb (gostcrypt kb x key) key = x"
proof -
  obtain a b where e: "enc_rounds kb key 32 x = (a, b)" by (cases "enc_rounds kb key 32 x")
  have "enc_rounds kb key 0 x = (fst x, snd x)" by simp
  from gostcrypt_loop_rounds[OF _ this]
  have c: "gostcrypt kb x key = (b, a)" by (simp add: gostcrypt_def e)
  from gostdecrypt_loop_rounds[OF _ e] have "gostdecrypt_loop kb key 0 63 b a = (snd x, fst x)" by simp
  then show ?thesis by (simp add: gostdecrypt_def c)
qed

text \<open>
  C3: for every 128-bit block and every 64-entry subkey schedule, \<open>gostdecrypt\<close>, which
  takes the subkeys from index 63 down to 0, two in a round, and swaps the halves of its
  output as \<open>gostcrypt\<close> does, returns the block that \<open>gostcrypt\<close> was given.
\<close>

theorem decrypt_block_inverts_encrypt_block:
  "length key = 64 \<Longrightarrow> gostdecrypt kb (gostcrypt kb x key) key = x"
  by (rule gost_block_roundtrip)

theorem decrypt_block_inverts_encrypt_block_witness:
  "length (replicate 64 (0 :: word64)) = 64 \<and>
   gostdecrypt kboxinit (gostcrypt kboxinit (1, 2) (replicate 64 0)) (replicate 64 0) = (1, 2)"
  using decrypt_block_inverts_encrypt_block [of "replicate 64 0" kboxinit "(1, 2)"] by simp

lemma m255: "(255 :: word64) = mask 8"
  by (simp add: mask_eq_exp_minus_1)

lemma m32: "(0xffffffff :: word64) = mask 32"
  by (simp add: mask_eq_exp_minus_1)

lemma idx_and255: "unat ((w :: word64) AND 255) = unat (ucast w :: byte)"
  apply (simp add: m255 flip: take_bit_eq_mask)
  apply (simp add: unsigned_take_bit_eq unsigned_ucast_eq)
  done

lemma rotl11: "push_bit 11 (x :: word64) OR drop_bit (64 - 11) x = word_rotl 11 x"
proof (rule bit_word_eqI)
  fix n :: nat assume n: "n < LENGTH(64)"
  show "bit (push_bit 11 x OR drop_bit (64 - 11) x) n = bit (word_rotl 11 x) n"
  proof (cases "n < 11")
    case True
    then have "(n + 53) mod 64 = n + 53" by simp
    with True n show ?thesis by (simp add: bit_simps add.commute)
  next
    case False
    with n have "(n + 53) mod 64 = n - 11" by (simp add: mod_if)
    with False n show ?thesis by (auto simp add: bit_simps dest: bit_imp_le_length)
  qed
qed

lemma assemble8:
  fixes s7 s6 s5 s4 s3 s2 s1 s0 :: byte
  shows "push_bit 32 (push_bit 24 (ucast s7) OR push_bit 16 (ucast s6) OR push_bit 8 (ucast s5) OR ucast s4)
         OR ((push_bit 24 (ucast s3) OR push_bit 16 (ucast s2) OR push_bit 8 (ucast s1) OR ucast s0) AND 0xffffffff)
       = (foldl (\<lambda>w b. push_bit 8 w OR ucast b) 0 [s7, s6, s5, s4, s3, s2, s1, s0] :: word64)"
proof -
  have low: "(push_bit 24 (ucast s3) OR push_bit 16 (ucast s2) OR push_bit 8 (ucast s1) OR ucast s0 :: word64) AND mask 32
      = push_bit 24 (ucast s3) OR push_bit 16 (ucast s2) OR push_bit 8 (ucast s1) OR ucast s0"
    by (rule bit_word_eqI) (auto simp: bit_simps dest: bit_imp_le_length)
  show ?thesis
    unfolding m32 low
    by (simp add: push_bit_or push_bit_push_bit ac_simps)
qed

lemma low_byte:
  "k + 8 \<le> 32 \<Longrightarrow> (ucast (drop_bit k ((x :: word64) AND 0xffffffff)) :: byte) = ucast (drop_bit k x)"
  unfolding m32 by (rule bit_word_eqI) (auto simp: bit_simps)

lemma low_byte0: "(ucast ((x :: word64) AND 0xffffffff) :: byte) = ucast x"
  using low_byte[of 0 x] by simp

lemma f_spec_f: "f kb x = spec_f kb x"
proof -
  have "f kb x = word_rotl 11 (spec_word
       [k87 kb ! unat (ucast (drop_bit 56 x) :: byte), k65 kb ! unat (ucast (drop_bit 48 x) :: byte),
        k43 kb ! unat (ucast (drop_bit 40 x) :: byte), k21 kb ! unat (ucast (drop_bit 32 x) :: byte),
        k175 kb ! unat (ucast (drop_bit 24 x) :: byte), k153 kb ! unat (ucast (drop_bit 16 x) :: byte),
        k131 kb ! unat (ucast (drop_bit 8 x) :: byte), k109 kb ! unat (ucast x :: byte)])"
    unfolding f_def Let_def sub8_def idx_and255 rotl11 spec_word_def assemble8 [symmetric]
    by (simp only: drop_bit_drop_bit low_byte low_byte0) simp
  also have "\<dots> = spec_f kb x"
    by (simp add: spec_f_def spec_bytes_def spec_subst_def)
  finally show ?thesis .
qed

lemma spec_add64_plus: "spec_add64 a k = a + k"
proof -
  have "(unat a + unat k) mod 2 ^ 64 = unat (a + k)"
    by (simp add: unat_word_ariths)
  then show ?thesis
    unfolding spec_add64_def by simp
qed

lemma enc_rounds_fold: "enc_rounds kb key m s = fold (spec_round kb key) [0..<m] s"
  by (induction m) (simp_all add: spec_round_def spec_add64_plus f_spec_f)

text \<open>
  C2: for every block \<open>(a, b)\<close> and every 64-entry subkey schedule, \<open>gostcrypt\<close> is 32
  rounds, round \<open>i\<close> being \<open>b ^= f(a + subkeys[2i])\<close> then \<open>a ^= f(b + subkeys[2i+1])\<close>
  with the addition modulo \<open>2^64\<close>, and its output is the halves swapped; and \<open>f\<close>
  substitutes each of the eight bytes of its argument through the table of that byte,
  reassembles them and rotates the 64-bit result left by 11 bits. The eight tables that
  \<open>kboxinit\<close> builds have 256 entries each.
\<close>

theorem encrypt_block_is_32_rounds:
  "length key = 64 \<Longrightarrow>
   gostcrypt kb (a, b) key = spec_encrypt_block kb (a, b) key \<and> f kb x = spec_f kb x \<and>
   list_all (\<lambda>t. length t = 256)
     [k87 kboxinit, k65 kboxinit, k43 kboxinit, k21 kboxinit,
      k175 kboxinit, k153 kboxinit, k131 kboxinit, k109 kboxinit]"
proof -
  have tables: "list_all (\<lambda>t. length t = 256)
     [k87 kboxinit, k65 kboxinit, k43 kboxinit, k21 kboxinit,
      k175 kboxinit, k153 kboxinit, k131 kboxinit, k109 kboxinit]"
    by (simp add: kboxinit_def)
  obtain a' b' where e: "enc_rounds kb key 32 (a, b) = (a', b')"
    by (cases "enc_rounds kb key 32 (a, b)")
  have "enc_rounds kb key 0 (a, b) = (a, b)" by simp
  from gostcrypt_loop_rounds[OF _ this]
  have "gostcrypt kb (a, b) key = (b', a')" by (simp add: gostcrypt_def e)
  moreover have "spec_encrypt_block kb (a, b) key = (b', a')"
    using e by (simp add: spec_encrypt_block_def enc_rounds_fold)
  ultimately show ?thesis using tables by (simp only: f_spec_f simp_thms)
qed

theorem encrypt_block_is_32_rounds_witness:
  "length (replicate 64 (0 :: word64)) = 64 \<and>
   gostcrypt kboxinit (1, 2) (replicate 64 0) = spec_encrypt_block kboxinit (1, 2) (replicate 64 0) \<and>
   f kboxinit 3 = spec_f kboxinit 3"
  using encrypt_block_is_32_rounds [of "replicate 64 0" kboxinit 1 2 3] by simp

section \<open>Properties of the byte and word conversions\<close>

lemma upt8: "[0..<8] = [0,1,2,3,4,5,6,7]" by (simp add: upt_rec)
lemma upt8_16: "[8..<16] = [8,9,10,11,12,13,14,15]" by (simp add: upt_rec)
lemma upt16: "[0..<16] = [0,1,2,3,4,5,6,7,8,9,10,11,12,13,14,15]" by (simp add: upt_rec)

lemma len_be_words_to_bytes [simp]: "length (be_words_to_bytes w) = 16"
  by (simp add: be_words_to_bytes_def)

lemma mFF: "(0xFF :: word64) = mask 8" by (simp add: mask_eq_exp_minus_1)

lemma byte_of_word: "(ucast (drop_bit k (w :: word64) AND 0xFF) :: byte) = ucast (drop_bit k w)"
  unfolding mFF by (rule bit_word_eqI) (auto simp: bit_simps)

lemma split8: "push_bit 8 (drop_bit 8 w) OR ucast (ucast w :: byte) = (w :: word64)"
  by (rule bit_word_eqI) (auto simp: bit_simps not_less)

lemma top8: "ucast (ucast (drop_bit 56 w) :: byte) = drop_bit 56 (w :: word64)"
  by (rule bit_word_eqI) (auto simp: bit_simps not_less dest: bit_imp_le_length)

lemma word_of_8bytes:
  "push_bit 8 (push_bit 8 (push_bit 8 (push_bit 8 (push_bit 8 (push_bit 8 (push_bit 8
     (ucast (ucast (drop_bit 56 w) :: byte)) OR ucast (ucast (drop_bit 48 w) :: byte))
     OR ucast (ucast (drop_bit 40 w) :: byte)) OR ucast (ucast (drop_bit 32 w) :: byte))
     OR ucast (ucast (drop_bit 24 w) :: byte)) OR ucast (ucast (drop_bit 16 w) :: byte))
     OR ucast (ucast (drop_bit 8 w) :: byte)) OR ucast (ucast w :: byte) = (w :: word64)"
proof -
  have s: "push_bit 8 (drop_bit (8 + k) w) OR ucast (ucast (drop_bit k w) :: byte) = drop_bit k w" for k
    using split8[of "drop_bit k w"] by (simp add: drop_bit_drop_bit)
  show ?thesis
    unfolding top8 using s[of 48] s[of 40] s[of 32] s[of 24] s[of 16] s[of 8] split8[of w]
    by simp
qed

lemma word_of_8bytes_nf:
  "((((((push_bit 56 (ucast (ucast (drop_bit 56 a) :: byte)) OR
           push_bit 48 (ucast (ucast (drop_bit 48 a) :: byte))) OR
          push_bit 40 (ucast (ucast (drop_bit 40 a) :: byte))) OR
         push_bit 32 (ucast (ucast (drop_bit 32 a) :: byte))) OR
        push_bit 24 (ucast (ucast (drop_bit 24 a) :: byte))) OR
       push_bit 16 (ucast (ucast (drop_bit 16 a) :: byte))) OR
      push_bit 8 (ucast (ucast (drop_bit 8 a) :: byte))) OR
     ucast (ucast a :: byte) = (a :: word64)"
  using word_of_8bytes[of a] by simp

lemma be_bytes_of_words [simp]: "be_bytes_to_words (be_words_to_bytes w) = w"
proof -
  have "be_bytes_to_words (be_words_to_bytes (a, b)) = (a, b)" for a b
    unfolding be_bytes_to_words_def be_words_to_bytes_def upt8 upt8_16
    by (simp add: byte_of_word word_of_8bytes_nf)
  then show ?thesis by (cases w) simp
qed

lemma byte_lo: "(ucast (push_bit 8 (w :: word64) OR ucast (b :: byte)) :: byte) = b"
  by (rule bit_word_eqI) (auto simp: bit_simps)

lemma byte_hi: "k + 8 \<le> 56 \<Longrightarrow>
  (ucast (drop_bit (8 + k) (push_bit 8 (w :: word64) OR ucast (b :: byte))) :: byte) = ucast (drop_bit k w)"
  by (rule bit_word_eqI) (auto simp: bit_simps dest: bit_imp_le_length)

lemma be_acc_byte:
  "j < n \<Longrightarrow> n \<le> 8 \<Longrightarrow>
   (ucast (drop_bit (8 * (n - 1 - j))
      (fold (\<lambda>i a. push_bit 8 a OR ucast ((bs :: byte list) ! i)) [base..<base + n] (0 :: word64))) :: byte)
   = bs ! (base + j)"
proof (induction n arbitrary: j)
  case 0
  then show ?case by simp
next
  case (Suc n)
  let ?W = "fold (\<lambda>i a. push_bit 8 a OR ucast (bs ! i)) [base..<base + n] (0 :: word64)"
  have unf: "fold (\<lambda>i a. push_bit 8 a OR ucast (bs ! i)) [base..<base + Suc n] (0 :: word64)
      = push_bit 8 ?W OR ucast (bs ! (base + n))"
    by simp
  show ?case
  proof (cases "j = n")
    case True
    then show ?thesis unfolding unf by (simp add: byte_lo)
  next
    case False
    with Suc.prems have jn: "j < n" and n7: "n \<le> 7" by simp_all
    then have k: "8 * (Suc n - 1 - j) = 8 + 8 * (n - 1 - j)" "8 * (n - 1 - j) + 8 \<le> 56" by simp_all
    show ?thesis
      unfolding unf k(1) using byte_hi[OF k(2)] Suc.IH[OF jn] n7 by simp
  qed
qed

lemma be_words_of_bytes:
  assumes "length bs = 16"
  shows "be_words_to_bytes (be_bytes_to_words bs) = bs"
proof (rule nth_equalityI)
  show "length (be_words_to_bytes (be_bytes_to_words bs)) = length bs"
    using assms by (simp add: be_words_to_bytes_def)
next
  fix i assume "i < length (be_words_to_bytes (be_bytes_to_words bs))"
  then have i: "i < 16" by (simp add: be_words_to_bytes_def)
  show "be_words_to_bytes (be_bytes_to_words bs) ! i = bs ! i"
  proof (cases "i < 8")
    case True
    have "be_words_to_bytes (be_bytes_to_words bs) ! i
        = ucast (drop_bit (8 * (8 - 1 - i)) (fst (be_bytes_to_words bs)))"
      using True by (simp add: be_words_to_bytes_def nth_append rev_nth byte_of_word mult.commute)
    also have "\<dots> = bs ! (0 + i)"
      unfolding be_bytes_to_words_def fst_conv using be_acc_byte[of i 8 bs 0] True by simp
    finally show ?thesis by simp
  next
    case False
    then have j: "i - 8 < 8" using i by simp
    have "be_words_to_bytes (be_bytes_to_words bs) ! i
        = ucast (drop_bit (8 * (8 - 1 - (i - 8))) (snd (be_bytes_to_words bs)))"
      using False j by (simp add: be_words_to_bytes_def nth_append rev_nth byte_of_word mult.commute)
    also have "\<dots> = bs ! (8 + (i - 8))"
      unfolding be_bytes_to_words_def snd_conv using be_acc_byte[of "i - 8" 8 bs 8] j by simp
    finally show ?thesis using False by simp
  qed
qed

section \<open>Properties of SHA-256 used by the codec\<close>

lemma len_sha256_round [simp]: "length (sha256_round m i v) = 8"
  by (simp add: sha256_round_def Let_def)

lemma len_fold_sha256_round: "xs \<noteq> [] \<Longrightarrow> length (fold (sha256_round m) xs v) = 8"
  by (induction xs arbitrary: v rule: rev_induct) simp_all

lemma len_state_transform: "length (state ctx) = 8 \<Longrightarrow> length (state (sha256_transform ctx d)) = 8"
  by (simp add: sha256_transform_def Let_def len_fold_sha256_round)

lemma len_state_update_byte:
  "length (state ctx) = 8 \<Longrightarrow> length (state (sha256_update_byte b ctx)) = 8"
  by (simp add: sha256_update_byte_def Let_def len_state_transform)

lemma len_state_update: "length (state ctx) = 8 \<Longrightarrow> length (state (sha256_update ctx bs)) = 8"
  unfolding sha256_update_def
  by (induction bs arbitrary: ctx) (simp_all add: len_state_update_byte)

lemma len_sha256_final: "length (state ctx) = 8 \<Longrightarrow> length (sha256_final ctx) = 32"
proof -
  assume l: "length (state ctx) = 8"
  have c: "length (concat (map (\<lambda>w. [g1 w, g2 w, g3 w, g4 w]) ws)) = 4 * length ws"
    for g1 g2 g3 g4 :: "word32 \<Rightarrow> byte" and ws
    by (induction ws) simp_all
  show ?thesis
    unfolding sha256_final_def Let_def c
    using l by (simp add: len_state_transform)
qed

lemma len_sha256 [simp]: "length (sha256 bs) = 32"
  by (simp add: sha256_def len_sha256_final len_state_update sha256_init_def)

lemma sha256_update_append:
  "sha256_update ctx (xs @ ys) = sha256_update (sha256_update ctx xs) ys"
  by (simp add: sha256_update_def)

section \<open>Properties of the encryption loop\<close>

lemma xor_fold_length [simp]:
  "length (fold (\<lambda>i b. b[off + i := b ! (off + i) XOR prev ! i]) [0..<n] buf) = length buf"
  by (induction n) simp_all

lemma xor_fold_nth:
  "j < length buf \<Longrightarrow>
   fold (\<lambda>i b. b[off + i := b ! (off + i) XOR prev ! i]) [0..<n] buf ! j
     = (if off \<le> j \<and> j < off + n then buf ! j XOR prev ! (j - off) else buf ! j)"
proof (induction n arbitrary: j)
  case 0
  then show ?case by auto
next
  case (Suc n)
  let ?F = "fold (\<lambda>i b. b[off + i := b ! (off + i) XOR prev ! i]) [0..<n] buf"
  show ?case
  proof (cases "j = off + n")
    case True
    with Suc.prems have "off + n < length buf" by simp
    from Suc.IH[OF this] have "?F ! (off + n) = buf ! (off + n)" by simp
    with True Suc.prems show ?thesis by simp
  next
    case False
    then have "fold (\<lambda>i b. b[off + i := b ! (off + i) XOR prev ! i]) [0..<Suc n] buf ! j = ?F ! j"
      by simp
    with Suc.IH[OF Suc.prems] False show ?thesis by auto
  qed
qed

lemma xor_block_eq:
  assumes "off + 16 \<le> length buf" "length prev = 16"
  shows "xor_block buf off prev = buf_store buf off (xor_bytes (buf_load buf off 16) prev)"
proof (rule nth_equalityI)
  show "length (xor_block buf off prev) = length (buf_store buf off (xor_bytes (buf_load buf off 16) prev))"
    using assms by (simp add: xor_block_def buf_store_def buf_load_def xor_bytes_def BLOCK_SIZE_def)
next
  fix j assume "j < length (xor_block buf off prev)"
  then have j: "j < length buf" by (simp add: xor_block_def)
  show "xor_block buf off prev ! j = buf_store buf off (xor_bytes (buf_load buf off 16) prev) ! j"
    using assms j
    by (auto simp: xor_block_def xor_fold_nth buf_store_def buf_load_def xor_bytes_def BLOCK_SIZE_def
        nth_append min_def)
qed

lemma len_cbc_encrypt_block [simp]: "length (cbc_encrypt_block kb ks prev x) = 16"
  by (simp add: cbc_encrypt_block_def)

lemma len_cbc_enc [simp]: "length (cbc_enc kb ks n prev bs) = 16 * n"
  by (induction n arbitrary: prev bs) (simp_all add: Let_def)

lemma len_cbc_enc_prev: "length prev = 16 \<Longrightarrow> length (cbc_enc_prev kb ks n prev bs) = 16"
  by (induction n arbitrary: prev bs) simp_all

lemma encrypt_blocks_spec:
  assumes "full = off + 16 * n" "full \<le> length inbuf" "off \<le> length outbuf" "length prev = 16"
  shows "\<exists>inbuf'. encrypt_blocks kb ks full off inbuf outbuf prev =
           (inbuf', take off outbuf @ cbc_enc kb ks n prev (drop off inbuf) @ drop full outbuf,
            cbc_enc_prev kb ks n prev (drop off inbuf))
         \<and> length inbuf' = length inbuf \<and> drop full inbuf' = drop full inbuf"
  using assms
proof (induction n arbitrary: off inbuf outbuf prev)
  case 0
  then show ?case by (subst encrypt_blocks.simps) simp
next
  case (Suc n)
  let ?x = "xor_bytes (buf_load inbuf off 16) prev"
  let ?inbuf1 = "xor_block inbuf off prev"
  let ?c = "cbc_encrypt_block kb ks prev (take 16 (drop off inbuf))"
  let ?outbuf1 = "buf_store outbuf off ?c"
  have lt: "off < full" and room: "off + 16 \<le> length inbuf" using Suc.prems by simp_all
  have ib: "?inbuf1 = buf_store inbuf off ?x"
    using room Suc.prems(4) by (rule xor_block_eq)
  have lx: "length ?x = 16"
    using room Suc.prems(4) by (simp add: xor_bytes_def buf_load_def)
  have ld: "buf_load ?inbuf1 off BLOCK_SIZE = ?x"
    using room lx by (simp add: ib buf_store_def buf_load_def BLOCK_SIZE_def)
  have c: "be_words_to_bytes (gostcrypt kb (be_bytes_to_words ?x) ks) = ?c"
    by (simp add: cbc_encrypt_block_def buf_load_def)
  have pv: "buf_load ?outbuf1 off BLOCK_SIZE = ?c"
    using Suc.prems(3) by (simp add: buf_store_def buf_load_def BLOCK_SIZE_def)
  have len1: "length ?inbuf1 = length inbuf" by (simp add: xor_block_def)
  have p1: "full = (off + 16) + 16 * n" using Suc.prems(1) by simp
  have p2: "full \<le> length ?inbuf1" using Suc.prems(2) len1 by simp
  have p3: "off + 16 \<le> length ?outbuf1" using Suc.prems(3) by (simp add: buf_store_def)
  from Suc.IH[OF p1 p2 p3, of ?c] obtain inbuf' where
    ih: "encrypt_blocks kb ks full (off + 16) ?inbuf1 ?outbuf1 ?c =
           (inbuf', take (off + 16) ?outbuf1 @ cbc_enc kb ks n ?c (drop (off + 16) ?inbuf1) @ drop full ?outbuf1,
            cbc_enc_prev kb ks n ?c (drop (off + 16) ?inbuf1))"
    and l': "length inbuf' = length ?inbuf1" and d': "drop full inbuf' = drop full ?inbuf1"
    by auto
  have dr: "drop (off + 16) ?inbuf1 = drop 16 (drop off inbuf)"
    using room lx by (simp add: ib buf_store_def add.commute)
  have tk: "take (off + 16) ?outbuf1 = take off outbuf @ ?c"
    using Suc.prems(3) by (simp add: buf_store_def)
  have df: "drop full ?outbuf1 = drop full outbuf"
    using Suc.prems(1,3) by (simp add: buf_store_def ac_simps)
  have dfi: "drop full ?inbuf1 = drop full inbuf"
    using Suc.prems(1) room lx by (simp add: ib buf_store_def ac_simps)
  have step: "encrypt_blocks kb ks full off inbuf outbuf prev
      = encrypt_blocks kb ks full (off + 16) ?inbuf1 ?outbuf1 ?c"
    apply (subst encrypt_blocks.simps)
    using lt apply (simp only: if_True Let_def ld c pv)
    apply (simp add: BLOCK_SIZE_def)
    done
  show ?case
    unfolding step ih using l' d' len1 dfi
    by (simp add: dr tk df Let_def)
qed

lemma cbc_enc_take: "16 * n \<le> k \<Longrightarrow> cbc_enc kb ks n prev (take k bs) = cbc_enc kb ks n prev bs"
proof (induction n arbitrary: prev bs k)
  case 0
  then show ?case by simp
next
  case (Suc n)
  then have k: "16 \<le> k" "16 * n \<le> k - 16" by simp_all
  have "drop 16 (take k bs) = take (k - 16) (drop 16 bs)" by (simp add: drop_take)
  with Suc.IH[OF k(2)] k(1) show ?case by (simp add: Let_def min_def)
qed

lemma cbc_enc_prev_take:
  "16 * n \<le> k \<Longrightarrow> cbc_enc_prev kb ks n prev (take k bs) = cbc_enc_prev kb ks n prev bs"
proof (induction n arbitrary: prev bs k)
  case 0
  then show ?case by simp
next
  case (Suc n)
  then have k: "16 \<le> k" "16 * n \<le> k - 16" by simp_all
  have "drop 16 (take k bs) = take (k - 16) (drop 16 bs)" by (simp add: drop_take)
  with Suc.IH[OF k(2)] k(1) show ?case by (simp add: Let_def min_def)
qed

lemma cbc_enc_append_right:
  "16 * n \<le> length bs \<Longrightarrow> cbc_enc kb ks n prev (bs @ cs) = cbc_enc kb ks n prev bs"
  using cbc_enc_take[of n "length bs" kb ks prev "bs @ cs"] cbc_enc_take[of n "length bs" kb ks prev bs]
  by simp

lemma cbc_enc_prev_append_right:
  "16 * n \<le> length bs \<Longrightarrow> cbc_enc_prev kb ks n prev (bs @ cs) = cbc_enc_prev kb ks n prev bs"
  using cbc_enc_prev_take[of n "length bs" kb ks prev "bs @ cs"]
    cbc_enc_prev_take[of n "length bs" kb ks prev bs]
  by simp

lemma cbc_enc_add:
  "cbc_enc kb ks (m + n) prev bs =
   cbc_enc kb ks m prev bs @ cbc_enc kb ks n (cbc_enc_prev kb ks m prev bs) (drop (16 * m) bs)"
  by (induction m arbitrary: prev bs) (simp_all add: Let_def add.commute)

lemma cbc_enc_prev_add:
  "cbc_enc_prev kb ks (m + n) prev bs =
   cbc_enc_prev kb ks n (cbc_enc_prev kb ks m prev bs) (drop (16 * m) bs)"
  by (induction m arbitrary: prev bs) (simp_all add: Let_def add.commute)

lemma encrypt_chunk_spec:
  assumes "full = 16 * n" "full \<le> length (e_inbuf st)" "length (e_prev st) = 16"
  shows "\<exists>inbuf'. encrypt_chunk kb ks full st =
           st\<lparr>e_fout := e_fout st @ cbc_enc kb ks n (e_prev st) (e_inbuf st),
              e_inbuf := inbuf',
              e_outbuf := cbc_enc kb ks n (e_prev st) (e_inbuf st) @ drop full (e_outbuf st),
              e_prev := cbc_enc_prev kb ks n (e_prev st) (e_inbuf st),
              e_hctx := sha256_update (e_hctx st) (cbc_enc kb ks n (e_prev st) (e_inbuf st))\<rparr>
         \<and> length inbuf' = length (e_inbuf st) \<and> drop full inbuf' = drop full (e_inbuf st)"
proof -
  from encrypt_blocks_spec[of full 0 n "e_inbuf st" "e_outbuf st" "e_prev st" kb ks] assms
  obtain inbuf' where
    b: "encrypt_blocks kb ks full 0 (e_inbuf st) (e_outbuf st) (e_prev st) =
          (inbuf', cbc_enc kb ks n (e_prev st) (e_inbuf st) @ drop full (e_outbuf st),
           cbc_enc_prev kb ks n (e_prev st) (e_inbuf st))"
    and l: "length inbuf' = length (e_inbuf st)" "drop full inbuf' = drop full (e_inbuf st)"
    by auto
  have "encrypt_chunk kb ks full st =
           st\<lparr>e_fout := e_fout st @ cbc_enc kb ks n (e_prev st) (e_inbuf st),
              e_inbuf := inbuf',
              e_outbuf := cbc_enc kb ks n (e_prev st) (e_inbuf st) @ drop full (e_outbuf st),
              e_prev := cbc_enc_prev kb ks n (e_prev st) (e_inbuf st),
              e_hctx := sha256_update (e_hctx st) (cbc_enc kb ks n (e_prev st) (e_inbuf st))\<rparr>"
    unfolding encrypt_chunk_def b by (simp add: assms(1) fwrite_def buf_load_def Let_def)
  with l show ?thesis by blast
qed


lemma sha256_update_Nil [simp]: "sha256_update ctx [] = ctx"
  by (simp add: sha256_update_def)

lemma fread_spec:
  "fread n fin = (take n (drop (f_pos fin) (f_content fin)),
                  fin\<lparr>f_pos := f_pos fin + min n (length (f_content fin) - f_pos fin)\<rparr>)"
  by (simp add: fread_def Let_def min.commute)

lemma whole_blocks_READ_CHUNK: "whole_blocks READ_CHUNK = READ_CHUNK"
  by (simp add: whole_blocks_def READ_CHUNK_def BLOCK_SIZE_def)

lemma encrypt_loop_spec:
  assumes "length (e_prev st) = 16" "e_err st = None"
    and "rest = drop (f_pos (e_fin st)) (f_content (e_fin st))"
    and "m = length rest div READ_CHUNK"
  shows "\<exists>st'. encrypt_loop kb ks st = (length rest mod READ_CHUNK, st')
           \<and> e_err st' = None
           \<and> e_fout st' = e_fout st @ cbc_enc kb ks (4096 * m) (e_prev st) rest
           \<and> e_prev st' = cbc_enc_prev kb ks (4096 * m) (e_prev st) rest
           \<and> e_hctx st' = sha256_update (e_hctx st) (cbc_enc kb ks (4096 * m) (e_prev st) rest)
           \<and> take (length rest mod READ_CHUNK) (e_inbuf st') = drop (READ_CHUNK * m) rest"
  using assms
proof (induction m arbitrary: st rest)
  case 0
  then have short: "length rest < READ_CHUNK"
    by (simp add: READ_CHUNK_def div_eq_0_iff)
  then have tk: "take READ_CHUNK rest = rest" by simp
  have rd: "fread READ_CHUNK (e_fin st) = (rest, snd (fread READ_CHUNK (e_fin st)))"
    using tk 0(3) by (simp add: fread_spec)
  have "encrypt_loop kb ks st =
      (length rest, st\<lparr>e_fin := snd (fread READ_CHUNK (e_fin st)), e_inbuf := buf_store (e_inbuf st) 0 rest\<rparr>)"
    apply (subst encrypt_loop.simps)
    apply (subst rd)
    using short apply (simp add: Let_def)
    done
  then show ?case
    using short 0(1,2) by (simp add: buf_store_def)
next
  case (Suc m)
  let ?RC = READ_CHUNK
  have long: "?RC \<le> length rest"
  proof (rule ccontr)
    assume "\<not> ?RC \<le> length rest"
    then have "length rest div ?RC = 0" by simp
    with Suc.prems(4) show False by simp
  qed
  let ?bs = "take ?RC rest"
  let ?fin1 = "(e_fin st)\<lparr>f_pos := f_pos (e_fin st) + ?RC\<rparr>"
  have rd: "fread ?RC (e_fin st) = (?bs, ?fin1)"
    using long Suc.prems(3) by (simp add: fread_spec min_def)
  let ?st1 = "st\<lparr>e_fin := ?fin1, e_inbuf := buf_store (e_inbuf st) 0 ?bs\<rparr>"
  have lbs: "length ?bs = ?RC" using long by simp
  have ib1: "e_inbuf ?st1 = ?bs @ drop ?RC (e_inbuf st)"
    using lbs by (simp add: buf_store_def)
  have n16: "?RC = 16 * 4096" by (simp add: READ_CHUNK_def)
  have le1: "?RC \<le> length (e_inbuf ?st1)" using lbs by (simp add: ib1)
  have pv1: "length (e_prev ?st1) = 16" using Suc.prems(1) by simp
  from encrypt_chunk_spec[OF n16 le1 pv1, of kb ks] obtain inbuf' where
    ch: "encrypt_chunk kb ks ?RC ?st1 =
           ?st1\<lparr>e_fout := e_fout ?st1 @ cbc_enc kb ks 4096 (e_prev ?st1) (e_inbuf ?st1),
              e_inbuf := inbuf',
              e_outbuf := cbc_enc kb ks 4096 (e_prev ?st1) (e_inbuf ?st1) @ drop ?RC (e_outbuf ?st1),
              e_prev := cbc_enc_prev kb ks 4096 (e_prev ?st1) (e_inbuf ?st1),
              e_hctx := sha256_update (e_hctx ?st1) (cbc_enc kb ks 4096 (e_prev ?st1) (e_inbuf ?st1))\<rparr>"
    by blast
  let ?C1 = "cbc_enc kb ks 4096 (e_prev st) rest"
  let ?P1 = "cbc_enc_prev kb ks 4096 (e_prev st) rest"
  have b16: "16 * 4096 \<le> length ?bs" "16 * 4096 \<le> ?RC" using lbs n16 by simp_all
  have c1: "cbc_enc kb ks 4096 (e_prev ?st1) (e_inbuf ?st1) = ?C1"
    unfolding ib1
    using cbc_enc_append_right[OF b16(1), of kb ks "e_prev st" "drop ?RC (e_inbuf st)"]
      cbc_enc_take[OF b16(2), of kb ks "e_prev st" rest]
    by simp
  have p1: "cbc_enc_prev kb ks 4096 (e_prev ?st1) (e_inbuf ?st1) = ?P1"
    unfolding ib1
    using cbc_enc_prev_append_right[OF b16(1), of kb ks "e_prev st" "drop ?RC (e_inbuf st)"]
      cbc_enc_prev_take[OF b16(2), of kb ks "e_prev st" rest]
    by simp
  let ?st2 = "st\<lparr>e_fin := ?fin1, e_fout := e_fout st @ ?C1, e_inbuf := inbuf',
                 e_outbuf := ?C1 @ drop ?RC (e_outbuf st), e_prev := ?P1,
                 e_hctx := sha256_update (e_hctx st) ?C1\<rparr>"
  have ch2: "encrypt_chunk kb ks ?RC ?st1 = ?st2"
    unfolding ch c1 p1 by simp
  have step: "encrypt_loop kb ks st = encrypt_loop kb ks ?st2"
    apply (subst encrypt_loop.simps)
    apply (subst rd)
    apply (simp only: prod.case Let_def lbs if_True whole_blocks_READ_CHUNK ch2)
    using Suc.prems(2) apply (simp add: move_remainder_def)
    done
  let ?rest2 = "drop ?RC rest"
  have r2: "?rest2 = drop (f_pos (e_fin ?st2)) (f_content (e_fin ?st2))"
    using Suc.prems(3) by (simp add: add.commute)
  have m2: "m = length ?rest2 div ?RC"
    using Suc.prems(4) long by (simp add: READ_CHUNK_def le_div_geq)
  have pl: "length (e_prev ?st2) = 16"
    using Suc.prems(1) by (simp add: len_cbc_enc_prev)
  have e2: "e_err ?st2 = None" using Suc.prems(2) by simp
  from Suc.IH[OF pl e2 r2 m2] obtain st' where
    ih: "encrypt_loop kb ks ?st2 = (length ?rest2 mod ?RC, st')"
      "e_err st' = None"
      "e_fout st' = e_fout ?st2 @ cbc_enc kb ks (4096 * m) (e_prev ?st2) ?rest2"
      "e_prev st' = cbc_enc_prev kb ks (4096 * m) (e_prev ?st2) ?rest2"
      "e_hctx st' = sha256_update (e_hctx ?st2) (cbc_enc kb ks (4096 * m) (e_prev ?st2) ?rest2)"
      "take (length ?rest2 mod ?RC) (e_inbuf st') = drop (?RC * m) ?rest2"
    by blast
  have md: "length ?rest2 mod ?RC = length rest mod ?RC"
    using long by (simp add: le_mod_geq)
  have sp: "cbc_enc kb ks (4096 * Suc m) (e_prev st) rest = ?C1 @ cbc_enc kb ks (4096 * m) ?P1 ?rest2"
    using cbc_enc_add[of kb ks 4096 "4096 * m" "e_prev st" rest] by (simp add: n16)
  have sp2: "cbc_enc_prev kb ks (4096 * Suc m) (e_prev st) rest = cbc_enc_prev kb ks (4096 * m) ?P1 ?rest2"
    using cbc_enc_prev_add[of kb ks 4096 "4096 * m" "e_prev st" rest] by (simp add: n16)
  have dd: "drop (?RC * m) ?rest2 = drop (?RC * Suc m) rest"
    by (simp add: add.commute)
  have g1: "encrypt_loop kb ks st = (length rest mod ?RC, st')"
    using step ih(1) md by simp
  have g3: "e_fout st' = e_fout st @ cbc_enc kb ks (4096 * Suc m) (e_prev st) rest"
    unfolding sp using ih(3) by simp
  have g4: "e_prev st' = cbc_enc_prev kb ks (4096 * Suc m) (e_prev st) rest"
    unfolding sp2 using ih(4) by simp
  have g5: "e_hctx st' = sha256_update (e_hctx st) (cbc_enc kb ks (4096 * Suc m) (e_prev st) rest)"
    unfolding sp using ih(5) by (simp add: sha256_update_append)
  have g6: "take (length rest mod ?RC) (e_inbuf st') = drop (?RC * Suc m) rest"
    using ih(6) md dd by simp
  show ?case
    using g1 ih(2) g3 g4 g5 g6 by blast
qed


lemma pad_length_bounds: "1 \<le> pad_length len" "pad_length len \<le> 16" "(len + pad_length len) mod 16 = 0"
  unfolding pad_length_def by presburger+

lemma length_padded: "length (padded p) = 16 * (length p div 16 + 1)"
proof -
  have "n + (16 - n mod 16) = 16 * (n div 16 + 1)" for n :: nat
    by presburger
  then show ?thesis
    unfolding padded_def pad_length_def by simp
qed

lemma cbc_encrypt_stream_spec:
  assumes iv: "length iv = 16"
  shows "cbc_encrypt_stream kb \<lparr>f_content = p, f_pos = 0\<rparr> fout ks iv =
           \<lparr>enc_err = None, enc_out = fout @ container kb ks iv p,
            enc_hash = sha256 (ciphertext kb ks iv p)\<rparr>"
proof -
  let ?RC = READ_CHUNK
  let ?st0 = "encrypt_start \<lparr>f_content = p, f_pos = 0\<rparr> (fout @ iv) iv"
  let ?m = "length p div ?RC"
  let ?r = "length p mod ?RC"
  have ld: "buf_load iv 0 BLOCK_SIZE = iv" using iv by (simp add: buf_load_def BLOCK_SIZE_def)
  have pv0: "length (e_prev ?st0) = 16" using iv by (simp add: encrypt_start_def ld)
  have e0: "e_err ?st0 = None" by (simp add: encrypt_start_def)
  have r0: "p = drop (f_pos (e_fin ?st0)) (f_content (e_fin ?st0))" by (simp add: encrypt_start_def)
  from encrypt_loop_spec[OF pv0 e0 r0 refl, of kb ks] obtain st1 where
    lp: "encrypt_loop kb ks ?st0 = (?r, st1)" and e1: "e_err st1 = None"
    and fo1: "e_fout st1 = fout @ iv @ cbc_enc kb ks (4096 * ?m) iv p"
    and pv1: "e_prev st1 = cbc_enc_prev kb ks (4096 * ?m) iv p"
    and h1: "e_hctx st1 = sha256_update sha256_init (cbc_enc kb ks (4096 * ?m) iv p)"
    and ib1: "take ?r (e_inbuf st1) = drop (?RC * ?m) p"
    by (auto simp: encrypt_start_def ld)
  let ?pad = "pad_length (length p)"
  have rlt: "?r < ?RC" by (simp add: READ_CHUNK_def)
  have r16: "?r mod 16 = length p mod 16"
    by (simp add: READ_CHUNK_def mod_mod_cancel)
  have padr: "BLOCK_SIZE - ?r mod BLOCK_SIZE = ?pad"
    by (simp add: BLOCK_SIZE_def pad_length_def r16)
  have lib1: "?r \<le> length (e_inbuf st1)"
  proof -
    have "length (take ?r (e_inbuf st1)) = length (drop (?RC * ?m) p)" using ib1 by simp
    moreover have "length (drop (?RC * ?m) p) = ?r"
      by (simp add: minus_mult_div_eq_mod)
    ultimately show ?thesis by simp
  qed
  let ?tailbytes = "drop (?RC * ?m) p @ replicate ?pad (of_nat ?pad)"
  let ?inbuf1 = "buf_store (e_inbuf st1) ?r (replicate ?pad (of_nat ?pad))"
  have fits: "\<not> ?r + ?pad > READ_CHUNK + BLOCK_SIZE"
    using rlt pad_length_bounds(2)[of "length p"] by (simp add: BLOCK_SIZE_def)
  have pd: "pkcs7_pad (e_inbuf st1) ?r (READ_CHUNK + BLOCK_SIZE) = (?inbuf1, ?r + ?pad)"
    unfolding pkcs7_pad_def Let_def padr using fits by simp
  have ib1': "?inbuf1 = ?tailbytes @ drop (?r + ?pad) (e_inbuf st1)"
    using ib1 by (simp add: buf_store_def)
  have tpos: "?r + ?pad \<noteq> 0" using pad_length_bounds(1)[of "length p"] by simp
  obtain k where k: "?r + ?pad = 16 * k"
  proof -
    have "(?r + ?pad) mod 16 = 0"
      using pad_length_bounds(3)[of "length p"] r16
      by (metis mod_add_left_eq)
    then show ?thesis using that by (auto simp: mod_eq_0_iff_dvd elim: dvdE)
  qed
  let ?st1' = "st1\<lparr>e_inbuf := ?inbuf1\<rparr>"
  have ltail: "length ?tailbytes = ?r + ?pad" by (simp add: minus_mult_div_eq_mod)
  have le2: "?r + ?pad \<le> length (e_inbuf ?st1')" using ltail by (simp add: ib1')
  have pv1l: "length (e_prev ?st1') = 16" using iv by (simp add: pv1 len_cbc_enc_prev)
  from encrypt_chunk_spec[OF k le2 pv1l, of kb ks] obtain inbuf' where
    ch: "encrypt_chunk kb ks (?r + ?pad) ?st1' =
           ?st1'\<lparr>e_fout := e_fout ?st1' @ cbc_enc kb ks k (e_prev ?st1') (e_inbuf ?st1'),
              e_inbuf := inbuf',
              e_outbuf := cbc_enc kb ks k (e_prev ?st1') (e_inbuf ?st1') @ drop (?r + ?pad) (e_outbuf ?st1'),
              e_prev := cbc_enc_prev kb ks k (e_prev ?st1') (e_inbuf ?st1'),
              e_hctx := sha256_update (e_hctx ?st1') (cbc_enc kb ks k (e_prev ?st1') (e_inbuf ?st1'))\<rparr>"
    by blast
  let ?P1 = "cbc_enc_prev kb ks (4096 * ?m) iv p"
  let ?C1 = "cbc_enc kb ks (4096 * ?m) iv p"
  let ?C2 = "cbc_enc kb ks k ?P1 ?tailbytes"
  have lk: "16 * k \<le> length ?tailbytes" using ltail k by simp
  have c2: "cbc_enc kb ks k (e_prev ?st1') (e_inbuf ?st1') = ?C2"
    using cbc_enc_append_right[OF lk, of kb ks ?P1 "drop (?r + ?pad) (e_inbuf st1)"]
    by (simp add: pv1 ib1')
  have pp: "padded p = p @ replicate ?pad (of_nat ?pad)" by (simp add: padded_def)
  have n16: "?RC * ?m = 16 * (4096 * ?m)" by (simp add: READ_CHUNK_def)
  have pre: "16 * (4096 * ?m) \<le> length p" unfolding n16[symmetric] by simp
  have C1': "?C1 = cbc_enc kb ks (4096 * ?m) iv (padded p)"
    using cbc_enc_append_right[OF pre, of kb ks iv] by (simp add: pp)
  have P1': "?P1 = cbc_enc_prev kb ks (4096 * ?m) iv (padded p)"
    using cbc_enc_prev_append_right[OF pre, of kb ks iv] by (simp add: pp)
  have tb: "?tailbytes = drop (16 * (4096 * ?m)) (padded p)"
    using pre by (simp add: pp n16)
  have cnt: "length (padded p) div 16 = 4096 * ?m + k"
  proof -
    have "length (padded p) = length p + ?pad" by (simp add: pp)
    also have "\<dots> = ?RC * ?m + (?r + ?pad)" by simp
    also have "\<dots> = 16 * (4096 * ?m + k)" using k n16 by simp
    finally show ?thesis by simp
  qed
  have C: "ciphertext kb ks iv p = ?C1 @ ?C2"
    unfolding ciphertext_def cnt cbc_enc_add C1' P1' tb ..
  let ?st2 = "encrypt_chunk kb ks (?r + ?pad) ?st1'"
  have efin: "e_err ?st2 = None"
    unfolding ch by (simp add: e1)
  have ffin: "e_fout ?st2 = fout @ iv @ ciphertext kb ks iv p"
    unfolding ch c2 by (simp add: fo1 C)
  have hfin: "sha256_final (e_hctx ?st2) = sha256 (ciphertext kb ks iv p)"
    unfolding ch c2 by (simp add: h1 C sha256_update_append sha256_def)
  have bl: "buf_load (sha256 (ciphertext kb ks iv p)) 0 32 = sha256 (ciphertext kb ks iv p)"
    by (simp add: buf_load_def)
  have liv: "length iv = BLOCK_SIZE" using iv by (simp add: BLOCK_SIZE_def)
  show ?thesis
    unfolding cbc_encrypt_stream_def fwrite_def ld
    apply (simp only: prod.case liv lp e1 pd Let_def tpos efin hfin ffin bl simp_thms if_False if_True)
    apply (simp add: container_def)
    done
qed

section \<open>Properties of the decryption loop\<close>

lemma len_cbc_decrypt_block [simp]: "length prev = 16 \<Longrightarrow> length (cbc_decrypt_block kb ks prev c) = 16"
  by (simp add: cbc_decrypt_block_def xor_bytes_def)

lemma len_cbc_dec [simp]: "length prev = 16 \<Longrightarrow> 16 * n \<le> length cs \<Longrightarrow> length (cbc_dec kb ks n prev cs) = 16 * n"
  by (induction n arbitrary: prev cs) simp_all

lemma len_cbc_dec_prev: "length prev = 16 \<Longrightarrow> 16 * n \<le> length cs \<Longrightarrow> length (cbc_dec_prev n prev cs) = 16"
  by (induction n arbitrary: prev cs) simp_all

lemma decrypt_blocks_spec:
  assumes "r = off + 16 * n" "r \<le> length inbuf" "off \<le> length outbuf" "length prev = 16"
  shows "decrypt_blocks kb ks r off inbuf outbuf prev =
           (take off outbuf @ cbc_dec kb ks n prev (drop off inbuf) @ drop r outbuf,
            cbc_dec_prev n prev (drop off inbuf))"
  using assms
proof (induction n arbitrary: off outbuf prev)
  case 0
  then show ?case by (subst decrypt_blocks.simps) simp
next
  case (Suc n)
  let ?c = "take 16 (drop off inbuf)"
  let ?d = "be_words_to_bytes (gostdecrypt kb (be_bytes_to_words ?c) ks)"
  let ?outbuf1 = "buf_store outbuf off ?d"
  let ?x = "cbc_decrypt_block kb ks prev ?c"
  let ?outbuf2 = "buf_store outbuf off ?x"
  have lt: "off < r" and room: "off + 16 \<le> length inbuf" using Suc.prems by simp_all
  have lc: "length ?c = 16" using room by simp
  have l1: "off + 16 \<le> length ?outbuf1" using Suc.prems(3) by (simp add: buf_store_def)
  have ld1: "buf_load ?outbuf1 off 16 = ?d"
    using Suc.prems(3) by (simp add: buf_store_def buf_load_def)
  have x2: "xor_block ?outbuf1 off prev = ?outbuf2"
    unfolding xor_block_eq[OF l1 Suc.prems(4)] ld1
    using Suc.prems(3,4) by (simp add: buf_store_def cbc_decrypt_block_def xor_bytes_def)
  have lx: "length ?x = 16" using Suc.prems(4) by simp
  have p1: "r = (off + 16) + 16 * n" using Suc.prems(1) by simp
  have p3: "off + 16 \<le> length ?outbuf2" using Suc.prems(3) lx by (simp add: buf_store_def)
  have ih: "decrypt_blocks kb ks r (off + 16) inbuf ?outbuf2 ?c =
      (take (off + 16) ?outbuf2 @ cbc_dec kb ks n ?c (drop (off + 16) inbuf) @ drop r ?outbuf2,
       cbc_dec_prev n ?c (drop (off + 16) inbuf))"
    by (rule Suc.IH[OF p1 Suc.prems(2) p3 lc])
  have tk: "take (off + 16) ?outbuf2 = take off outbuf @ ?x"
    using Suc.prems(3) lx by (simp add: buf_store_def)
  have df: "drop r ?outbuf2 = drop r outbuf"
    using Suc.prems(1,3) lx by (simp add: buf_store_def ac_simps)
  have c1: "cbc_dec kb ks (Suc n) prev (drop off inbuf) = ?x @ cbc_dec kb ks n ?c (drop (off + 16) inbuf)"
    by (simp only: cbc_dec.simps drop_drop add.commute[of 16 off])
  have c2: "cbc_dec_prev (Suc n) prev (drop off inbuf) = cbc_dec_prev n ?c (drop (off + 16) inbuf)"
    by (simp only: cbc_dec_prev.simps drop_drop add.commute[of 16 off])
  have step: "decrypt_blocks kb ks r off inbuf outbuf prev
      = decrypt_blocks kb ks r (off + 16) inbuf ?outbuf2 ?c"
    apply (subst decrypt_blocks.simps)
    using lt apply (simp only: if_True Let_def BLOCK_SIZE_def buf_load_def[of inbuf] x2)
    done
  show ?case
    unfolding step ih c1 c2 tk df by simp
qed

lemma pkcs7_unpad_loop_spec:
  "i \<le> unat pad \<Longrightarrow>
   pkcs7_unpad_loop buf len pad i = (\<forall>j. i \<le> j \<and> j < unat pad \<longrightarrow> buf ! (len - 1 - j) = pad)"
proof (induction "unat pad - i" arbitrary: i)
  case 0
  then have n: "\<not> i < unat pad" by simp
  then have "pkcs7_unpad_loop buf len pad i" by (subst pkcs7_unpad_loop.simps) simp
  moreover have "\<not> (i \<le> j \<and> j < unat pad)" for j using n by linarith
  ultimately show ?case by blast
next
  case (Suc k)
  then have lt: "i < unat pad" by simp
  have ih: "pkcs7_unpad_loop buf len pad (i + 1) = (\<forall>j. i + 1 \<le> j \<and> j < unat pad \<longrightarrow> buf ! (len - 1 - j) = pad)"
    using Suc.hyps(1)[of "i + 1"] Suc.hyps(2) lt by simp
  show ?case
  proof (cases "buf ! (len - 1 - i) = pad")
    case True
    have "pkcs7_unpad_loop buf len pad i = pkcs7_unpad_loop buf len pad (i + 1)"
      using lt True by (subst pkcs7_unpad_loop.simps) simp
    moreover have "(\<forall>j. i + 1 \<le> j \<and> j < unat pad \<longrightarrow> buf ! (len - 1 - j) = pad)
        = (\<forall>j. i \<le> j \<and> j < unat pad \<longrightarrow> buf ! (len - 1 - j) = pad)"
    proof
      assume a: "\<forall>j. i + 1 \<le> j \<and> j < unat pad \<longrightarrow> buf ! (len - 1 - j) = pad"
      show "\<forall>j. i \<le> j \<and> j < unat pad \<longrightarrow> buf ! (len - 1 - j) = pad"
      proof (intro allI impI)
        fix j assume j: "i \<le> j \<and> j < unat pad"
        show "buf ! (len - 1 - j) = pad"
        proof (cases "j = i")
          case True
          with \<open>buf ! (len - 1 - i) = pad\<close> show ?thesis by simp
        next
          case False
          with j have "i + 1 \<le> j \<and> j < unat pad" by simp
          with a show ?thesis by blast
        qed
      qed
    next
      assume a: "\<forall>j. i \<le> j \<and> j < unat pad \<longrightarrow> buf ! (len - 1 - j) = pad"
      show "\<forall>j. i + 1 \<le> j \<and> j < unat pad \<longrightarrow> buf ! (len - 1 - j) = pad"
      proof (intro allI impI)
        fix j assume "i + 1 \<le> j \<and> j < unat pad"
        then have "i \<le> j \<and> j < unat pad" by simp
        with a show "buf ! (len - 1 - j) = pad" by blast
      qed
    qed
    ultimately show ?thesis using ih by simp
  next
    case False
    have "\<not> pkcs7_unpad_loop buf len pad i"
      using lt False by (subst pkcs7_unpad_loop.simps) simp
    moreover have "\<not> (\<forall>j. i \<le> j \<and> j < unat pad \<longrightarrow> buf ! (len - 1 - j) = pad)"
      using False lt by blast
    ultimately show ?thesis by simp
  qed
qed

lemma valid_padding_iff:
  assumes "length blk = 16"
  shows "valid_padding blk \<longleftrightarrow>
         (1 \<le> unat (last blk) \<and> unat (last blk) \<le> 16 \<and>
          (\<forall>j. j < unat (last blk) \<longrightarrow> blk ! (16 - 1 - j) = last blk))"
proof -
  let ?v = "unat (last blk)"
  have "list_all (\<lambda>b. b = last blk) (drop (16 - ?v) blk)
        \<longleftrightarrow> (\<forall>j. j < ?v \<longrightarrow> blk ! (16 - 1 - j) = last blk)" if v: "?v \<le> 16"
  proof
    assume a: "list_all (\<lambda>b. b = last blk) (drop (16 - ?v) blk)"
    show "\<forall>j. j < ?v \<longrightarrow> blk ! (16 - 1 - j) = last blk"
    proof (intro allI impI)
      fix j assume j: "j < ?v"
      then have e: "16 - 1 - j = 16 - ?v + (?v - 1 - j)" using v by simp
      have "blk ! (16 - 1 - j) = drop (16 - ?v) blk ! (?v - 1 - j)"
        unfolding e using v assms by simp
      moreover have "?v - 1 - j < length (drop (16 - ?v) blk)" using j v assms by simp
      ultimately show "blk ! (16 - 1 - j) = last blk"
        using a by (simp add: list_all_length)
    qed
  next
    assume a: "\<forall>j. j < ?v \<longrightarrow> blk ! (16 - 1 - j) = last blk"
    show "list_all (\<lambda>b. b = last blk) (drop (16 - ?v) blk)"
      unfolding list_all_length
    proof (intro allI impI)
      fix n assume n: "n < length (drop (16 - ?v) blk)"
      then have nv: "n < ?v" using v assms by simp
      then have e: "16 - ?v + n = 16 - 1 - (?v - 1 - n)" using v by simp
      have "drop (16 - ?v) blk ! n = blk ! (16 - ?v + n)"
        using v assms by simp
      also have "\<dots> = blk ! (16 - 1 - (?v - 1 - n))" by (simp only: e)
      also have "\<dots> = last blk" using a[rule_format, of "?v - 1 - n"] nv by linarith
      finally show "drop (16 - ?v) blk ! n = last blk" .
    qed
  qed
  note eq = this
  show ?thesis
  proof (cases "?v \<le> 16")
    case True
    from eq[OF True] show ?thesis unfolding valid_padding_def using assms by simp
  next
    case False
    then show ?thesis unfolding valid_padding_def by simp
  qed
qed

lemma pkcs7_unpad_spec:
  assumes "length blk = 16"
  shows "pkcs7_unpad blk BLOCK_SIZE =
           (if valid_padding blk then (True, 16 - unat (last blk)) else (False, 16))"
proof -
  have ne: "blk \<noteq> []" using assms by auto
  have lst: "blk ! (16 - 1) = last blk"
    using last_conv_nth[OF ne] assms by simp
  have loop: "pkcs7_unpad_loop blk 16 (last blk) 0 = (\<forall>j. j < unat (last blk) \<longrightarrow> blk ! (16 - 1 - j) = last blk)"
    using pkcs7_unpad_loop_spec[of 0 "last blk" blk 16] by simp
  have z: "(last blk = 0) = (\<not> 1 \<le> unat (last blk))"
    by (simp add: unat_eq_0 not_le less_Suc0 flip: One_nat_def)
  show ?thesis
    unfolding pkcs7_unpad_def BLOCK_SIZE_def Let_def lst valid_padding_iff[OF assms] loop z
    by (simp add: not_le)
qed

lemma cbc_dec_take: "16 * n \<le> k \<Longrightarrow> cbc_dec kb ks n prev (take k cs) = cbc_dec kb ks n prev cs"
proof (induction n arbitrary: prev cs k)
  case 0
  then show ?case by simp
next
  case (Suc n)
  then have k: "16 \<le> k" "16 * n \<le> k - 16" by simp_all
  have "drop 16 (take k cs) = take (k - 16) (drop 16 cs)" by (simp add: drop_take)
  with Suc.IH[OF k(2)] k(1) show ?case by (simp add: min_def)
qed

lemma cbc_dec_prev_take: "16 * n \<le> k \<Longrightarrow> cbc_dec_prev n prev (take k cs) = cbc_dec_prev n prev cs"
proof (induction n arbitrary: prev cs k)
  case 0
  then show ?case by simp
next
  case (Suc n)
  then have k: "16 \<le> k" "16 * n \<le> k - 16" by simp_all
  have "drop 16 (take k cs) = take (k - 16) (drop 16 cs)" by (simp add: drop_take)
  with Suc.IH[OF k(2)] k(1) show ?case by (simp add: min_def)
qed

lemma cbc_dec_append_right:
  "16 * n \<le> length cs \<Longrightarrow> cbc_dec kb ks n prev (cs @ ds) = cbc_dec kb ks n prev cs"
  using cbc_dec_take[of n "length cs" kb ks prev "cs @ ds"] cbc_dec_take[of n "length cs" kb ks prev cs]
  by simp

lemma cbc_dec_prev_append_right:
  "16 * n \<le> length cs \<Longrightarrow> cbc_dec_prev n prev (cs @ ds) = cbc_dec_prev n prev cs"
  using cbc_dec_prev_take[of n "length cs" prev "cs @ ds"] cbc_dec_prev_take[of n "length cs" prev cs]
  by simp

lemma cbc_dec_add:
  "cbc_dec kb ks (m + n) prev cs =
   cbc_dec kb ks m prev cs @ cbc_dec kb ks n (cbc_dec_prev m prev cs) (drop (16 * m) cs)"
  by (induction m arbitrary: prev cs) (simp_all add: add.commute)

lemma chunk_size_whole:
  "chunk_size (int (16 * n)) = (if 4096 < n then READ_CHUNK else 16 * n)"
proof -
  have "nat (16 * int n) = 16 * n" by (simp add: nat_mult_distrib)
  then show ?thesis
    by (simp add: chunk_size_def READ_CHUNK_def BLOCK_SIZE_def Let_def)
qed

lemma decrypt_last_spec:
  assumes r: "r = 16 * n" "0 < n" and ob: "d_outbuf st = P @ junk" "length P = r"
    and e: "d_err st = None"
  shows "d_err (decrypt_last r st) = (if valid_padding (drop (r - 16) P) then None else Some InvalidPadding)"
    and "d_fout (decrypt_last r st) =
           d_fout st @ (if valid_padding (drop (r - 16) P) then take (r - unat (last P)) P
                        else take (r - 16) P)"
    and "d_hctx (decrypt_last r st) = d_hctx st"
    and "d_remaining (decrypt_last r st) = d_remaining st"
proof -
  let ?keep = "r - 16"
  let ?blk = "drop ?keep P"
  let ?st1 = "st\<lparr>d_fout := d_fout st @ take ?keep P\<rparr>"
  have r16: "\<not> r < 16" using r by simp
  have lb: "length ?blk = 16" using r ob(2) by simp
  have st1: "(if ?keep \<noteq> 0
                    then (case fwrite (buf_load (d_outbuf st) 0 ?keep) (d_fout st) of
                            (w, fout1) \<Rightarrow>
                              if w \<noteq> ?keep then st\<lparr>d_fout := fout1, d_err := Some IOError\<rparr>
                              else st\<lparr>d_fout := fout1\<rparr>)
                    else st) = ?st1"
    using ob r by (simp add: fwrite_def buf_load_def)
  have e1: "d_err ?st1 = None" using e by simp
  have blk: "buf_load (d_outbuf ?st1) ?keep 16 = ?blk"
    using ob r by (simp add: buf_load_def)
  have lastP: "last ?blk = last P" using lb ob(2) r by (simp add: last_drop)
  have un: "pkcs7_unpad ?blk 16 =
      (if valid_padding ?blk then (True, 16 - unat (last P)) else (False, 16))"
    using pkcs7_unpad_spec[OF lb] lastP by (simp add: BLOCK_SIZE_def)
  have dl: "decrypt_last r st =
      (if \<not> valid_padding ?blk then ?st1\<lparr>d_err := Some InvalidPadding\<rparr>
       else if 16 - unat (last P) \<noteq> 0
       then ?st1\<lparr>d_fout := d_fout ?st1 @ take (16 - unat (last P)) ?blk\<rparr>
       else ?st1)"
    unfolding decrypt_last_def BLOCK_SIZE_def Let_def
    apply (simp only: r16 if_False st1 e1 blk un simp_thms)
    apply (insert lb)
    apply (simp add: fwrite_def buf_load_def min_def)
    done
  have v16: "unat (last P) \<le> 16" "1 \<le> unat (last P)" if "valid_padding ?blk"
    using that lastP by (simp_all add: valid_padding_def)
  have tk: "take ?keep P @ take (16 - unat (last P)) ?blk = take (r - unat (last P)) P"
    if "valid_padding ?blk"
  proof -
    have "take (r - unat (last P)) P = take (?keep + (16 - unat (last P))) P"
      using v16[OF that] r by simp
    then show ?thesis by (simp only: take_add)
  qed
  show "d_err (decrypt_last r st) = (if valid_padding (drop (r - 16) P) then None else Some InvalidPadding)"
    unfolding dl using e by simp
  show "d_fout (decrypt_last r st) =
           d_fout st @ (if valid_padding (drop (r - 16) P) then take (r - unat (last P)) P
                        else take (r - 16) P)"
  proof (cases "valid_padding ?blk")
    case True
    show ?thesis
    proof (cases "16 - unat (last P) = 0")
      case z: True
      then have "r - unat (last P) = ?keep" using v16[OF True] by simp
      with True z show ?thesis unfolding dl by simp
    next
      case False
      with True tk[OF True] show ?thesis unfolding dl by simp
    qed
  next
    case False
    then show ?thesis unfolding dl by simp
  qed
  show "d_hctx (decrypt_last r st) = d_hctx st" unfolding dl by simp
  show "d_remaining (decrypt_last r st) = d_remaining st" unfolding dl by simp
qed


lemma decrypt_body_spec:
  assumes rem: "d_remaining st = int (16 * n)" "0 < n" and e: "d_err st = None"
    and pv: "length (d_prev st) = 16"
    and av: "f_pos (d_fin st) + 16 * n \<le> length (f_content (d_fin st))"
    and k: "k = (if 4096 < n then 4096 else n)"
    and bs: "bs = take (16 * k) (drop (f_pos (d_fin st)) (f_content (d_fin st)))"
    and D: "D = cbc_dec kb ks k (d_prev st) bs"
  shows "d_hctx (decrypt_body kb ks st) = sha256_update (d_hctx st) bs"
    and "d_remaining (decrypt_body kb ks st) = int (16 * (n - k))"
    and "d_fin (decrypt_body kb ks st) = (d_fin st)\<lparr>f_pos := f_pos (d_fin st) + 16 * k\<rparr>"
    and "d_prev (decrypt_body kb ks st) = cbc_dec_prev k (d_prev st) bs"
    and "4096 < n \<Longrightarrow> d_err (decrypt_body kb ks st) = None \<and> d_fout (decrypt_body kb ks st) = d_fout st @ D"
    and "n \<le> 4096 \<Longrightarrow>
           d_err (decrypt_body kb ks st) = (if valid_padding (drop (16 * n - 16) D) then None else Some InvalidPadding)
         \<and> d_fout (decrypt_body kb ks st) =
             d_fout st @ (if valid_padding (drop (16 * n - 16) D) then take (16 * n - unat (last D)) D
                          else take (16 * n - 16) D)"
proof -
  let ?t = "16 * k"
  have kn: "k \<le> n" "0 < k" using k rem(2) by (simp_all split: if_splits)
  have cs: "chunk_size (d_remaining st) = ?t"
    unfolding rem(1) chunk_size_whole using k by (simp add: READ_CHUNK_def)
  have lbs: "length bs = ?t" using av kn by (simp add: bs)
  define fin1 where "fin1 = (d_fin st)\<lparr>f_pos := f_pos (d_fin st) + ?t\<rparr>"
  have rd: "fread ?t (d_fin st) = (bs, fin1)"
    using av kn by (simp add: fread_spec bs fin1_def min_def)
  define inbuf1 where "inbuf1 = buf_store (d_inbuf st) 0 bs"
  have ib: "inbuf1 = bs @ drop ?t (d_inbuf st)" by (simp add: inbuf1_def buf_store_def lbs)
  have ld: "buf_load inbuf1 0 ?t = bs" by (simp add: ib buf_load_def lbs)
  define pv1 where "pv1 = cbc_dec_prev k (d_prev st) bs"
  have db: "decrypt_blocks kb ks ?t 0 inbuf1 (d_outbuf st) (d_prev st) = (D @ drop ?t (d_outbuf st), pv1)"
  proof -
    have "decrypt_blocks kb ks ?t 0 inbuf1 (d_outbuf st) (d_prev st) =
        (take 0 (d_outbuf st) @ cbc_dec kb ks k (d_prev st) (drop 0 inbuf1) @ drop ?t (d_outbuf st),
         cbc_dec_prev k (d_prev st) (drop 0 inbuf1))"
      by (rule decrypt_blocks_spec) (simp_all add: ib lbs pv)
    moreover have "cbc_dec kb ks k (d_prev st) inbuf1 = D"
      unfolding ib D using cbc_dec_append_right[of k bs kb ks "d_prev st"] lbs by simp
    moreover have "cbc_dec_prev k (d_prev st) inbuf1 = pv1"
      unfolding ib pv1_def using cbc_dec_prev_append_right[of k bs "d_prev st"] lbs by simp
    ultimately show ?thesis by simp
  qed
  have lD: "length D = ?t" unfolding D using pv lbs by simp
  define st3 where "st3 = st\<lparr>d_fin := fin1, d_inbuf := inbuf1, d_hctx := sha256_update (d_hctx st) bs,
      d_outbuf := D @ drop ?t (d_outbuf st), d_prev := pv1, d_remaining := int (16 * n) - int ?t\<rparr>"
  have body: "decrypt_body kb ks st =
      (if int (16 * n) - int ?t > 0 then st3\<lparr>d_fout := d_fout st @ D\<rparr> else decrypt_last ?t st3)"
    unfolding decrypt_body_def cs Let_def rd prod.case lbs inbuf1_def[symmetric]
    using ld by (simp add: db st3_def rem(1) fwrite_def buf_load_def lD)
  have r3: "int (16 * n) - int ?t = int (16 * (n - k))" using kn by (simp add: algebra_simps of_nat_diff)
  show g5: "4096 < n \<Longrightarrow> d_err (decrypt_body kb ks st) = None \<and> d_fout (decrypt_body kb ks st) = d_fout st @ D"
    unfolding body using k e by (simp add: st3_def)
  have last: "decrypt_body kb ks st = decrypt_last (16 * n) st3" "k = n" if "n \<le> 4096"
    using that k unfolding body by simp_all
  have o3: "d_outbuf st3 = D @ drop ?t (d_outbuf st)" "d_err st3 = None"
    using e by (simp_all add: st3_def)
  show "n \<le> 4096 \<Longrightarrow>
           d_err (decrypt_body kb ks st) = (if valid_padding (drop (16 * n - 16) D) then None else Some InvalidPadding)
         \<and> d_fout (decrypt_body kb ks st) =
             d_fout st @ (if valid_padding (drop (16 * n - 16) D) then take (16 * n - unat (last D)) D
                          else take (16 * n - 16) D)"
  proof -
    assume le: "n \<le> 4096"
    have lD': "length D = 16 * n" using lD last(2)[OF le] by simp
    from decrypt_last_spec(1,2)[OF refl rem(2) o3(1) lD' o3(2)]
    show ?thesis unfolding last(1)[OF le] by (simp add: st3_def)
  qed
  show "d_hctx (decrypt_body kb ks st) = sha256_update (d_hctx st) bs"
  proof (cases "4096 < n")
    case True
    then show ?thesis unfolding body using k by (simp add: st3_def)
  next
    case False
    then have le: "n \<le> 4096" by simp
    have lD': "length D = 16 * n" using lD last(2)[OF le] by simp
    from decrypt_last_spec(3)[OF refl rem(2) o3(1) lD' o3(2)]
    show ?thesis unfolding last(1)[OF le] by (simp add: st3_def)
  qed
  show "d_remaining (decrypt_body kb ks st) = int (16 * (n - k))"
  proof (cases "4096 < n")
    case True
    then show ?thesis unfolding body using k kn by (simp add: st3_def)
  next
    case False
    then have le: "n \<le> 4096" by simp
    have lD': "length D = 16 * n" using lD last(2)[OF le] by simp
    from decrypt_last_spec(4)[OF refl rem(2) o3(1) lD' o3(2)]
    show ?thesis unfolding last(1)[OF le] using last(2)[OF le] by (simp add: st3_def)
  qed
  have fields: "d_fin (decrypt_last r s) = d_fin s" "d_prev (decrypt_last r s) = d_prev s" for r s
    by (simp_all add: decrypt_last_def Let_def fwrite_def split: prod.splits)
  show "d_fin (decrypt_body kb ks st) = (d_fin st)\<lparr>f_pos := f_pos (d_fin st) + 16 * k\<rparr>"
    unfolding body by (simp add: fields st3_def fin1_def)
  show "d_prev (decrypt_body kb ks st) = cbc_dec_prev k (d_prev st) bs"
    unfolding body by (simp add: fields st3_def pv1_def)
qed


lemma decrypt_loop_done: "\<not> d_remaining st > 0 \<Longrightarrow> decrypt_loop kb ks st = Some st"
  by (subst decrypt_loop.simps) simp

lemma decrypt_loop_step:
  "d_remaining st > 0 \<Longrightarrow>
   decrypt_loop kb ks st =
     (if d_err (decrypt_body kb ks st) \<noteq> None then Some (decrypt_body kb ks st)
      else decrypt_loop kb ks (decrypt_body kb ks st))"
  by (subst decrypt_loop.simps) (simp add: Let_def)

lemma decrypt_loop_spec:
  assumes "d_remaining st = int (16 * n)" "0 < n" "d_err st = None" "length (d_prev st) = 16"
    and "f_pos (d_fin st) + 16 * n \<le> length (f_content (d_fin st))"
    and "cs = take (16 * n) (drop (f_pos (d_fin st)) (f_content (d_fin st)))"
    and "P = cbc_dec kb ks n (d_prev st) cs"
  shows "\<exists>st'. decrypt_loop kb ks st = Some st'
           \<and> d_hctx st' = sha256_update (d_hctx st) cs
           \<and> d_err st' = (if valid_padding (drop (16 * n - 16) P) then None else Some InvalidPadding)
           \<and> d_fout st' = d_fout st @ (if valid_padding (drop (16 * n - 16) P)
                                       then take (16 * n - unat (last P)) P
                                       else take (16 * n - 16) P)"
  using assms
proof (induction n arbitrary: st cs P rule: less_induct)
  case (less n)
  let ?k = "if 4096 < n then 4096 else n"
  let ?bs = "take (16 * ?k) (drop (f_pos (d_fin st)) (f_content (d_fin st)))"
  let ?D = "cbc_dec kb ks ?k (d_prev st) ?bs"
  let ?st1 = "decrypt_body kb ks st"
  note body = decrypt_body_spec[OF less.prems(1-5) refl refl refl, of kb ks]
  have pos: "d_remaining st > 0" using less.prems(1,2) by simp
  show ?case
  proof (cases "4096 < n")
    case False
    then have le: "n \<le> 4096" and k: "?k = n" by simp_all
    have bs: "?bs = cs" using less.prems(6) k by simp
    have D: "?D = P" using less.prems(7) k bs by simp
    have r1: "\<not> d_remaining ?st1 > 0" using body(2) k by simp
    have "decrypt_loop kb ks st = Some ?st1"
      unfolding decrypt_loop_step[OF pos] using decrypt_loop_done[OF r1] by simp
    moreover have "d_hctx ?st1 = sha256_update (d_hctx st) cs" using body(1) bs by simp
    moreover note body(6)[OF le, unfolded D]
    ultimately show ?thesis by blast
  next
    case True
    then have k: "?k = 4096" by simp
    let ?n' = "n - 4096"
    have n': "0 < ?n'" "?n' < n" "n = 4096 + ?n'" using True by simp_all
    have e1: "d_err ?st1 = None" and f1: "d_fout ?st1 = d_fout st @ ?D"
      using body(5)[OF True] by simp_all
    have r1: "d_remaining ?st1 = int (16 * ?n')" using body(2) k by simp
    have p1: "length (d_prev ?st1) = 16"
      unfolding body(4) using less.prems(4,5) True by (intro len_cbc_dec_prev) simp_all
    have fin1: "d_fin ?st1 = (d_fin st)\<lparr>f_pos := f_pos (d_fin st) + 65536\<rparr>"
      using body(3) k by simp
    have a1: "f_pos (d_fin ?st1) + 16 * ?n' \<le> length (f_content (d_fin ?st1))"
      unfolding fin1 using less.prems(5) True by simp
    let ?cs' = "take (16 * ?n') (drop (f_pos (d_fin ?st1)) (f_content (d_fin ?st1)))"
    let ?P' = "cbc_dec kb ks ?n' (d_prev ?st1) ?cs'"
    from less.IH[OF n'(2) r1 n'(1) e1 p1 a1 refl refl] obtain st' where
      ih: "decrypt_loop kb ks ?st1 = Some st'"
        "d_hctx st' = sha256_update (d_hctx ?st1) ?cs'"
        "d_err st' = (if valid_padding (drop (16 * ?n' - 16) ?P') then None else Some InvalidPadding)"
        "d_fout st' = d_fout ?st1 @ (if valid_padding (drop (16 * ?n' - 16) ?P')
                                       then take (16 * ?n' - unat (last ?P')) ?P'
                                       else take (16 * ?n' - 16) ?P')"
      by blast
    have lp: "decrypt_loop kb ks st = Some st'"
      unfolding decrypt_loop_step[OF pos] using e1 ih(1) by simp
    have bs: "?bs = take 65536 cs" using less.prems(6) True by (simp add: min_def)
    have a16: "16 * ?n' = 16 * n - 65536" using True by simp
    have cs': "?cs' = drop 65536 cs"
      unfolding fin1 less.prems(6) a16
      by (simp add: drop_take add.commute)
    have lcs: "length cs = 16 * n" using less.prems(5,6) by simp
    have csplit: "cs = ?bs @ ?cs'" unfolding bs cs' by simp
    have D: "?D = cbc_dec kb ks 4096 (d_prev st) cs"
      apply (subst bs)
      apply (simp only: k)
      using cbc_dec_take[of 4096 65536 kb ks "d_prev st" cs] apply simp
      done
    have pv': "d_prev ?st1 = cbc_dec_prev 4096 (d_prev st) cs"
      unfolding body(4)
      apply (subst bs)
      apply (simp only: k)
      using cbc_dec_prev_take[of 4096 65536 "d_prev st" cs] apply simp
      done
    have P: "P = ?D @ ?P'"
      unfolding less.prems(7) D pv' cs'
      using cbc_dec_add[of kb ks 4096 ?n' "d_prev st" cs] n'(3) by simp
    have lD: "length ?D = 65536"
      unfolding D using less.prems(4) lcs True by simp
    have lP': "length ?P' = 16 * ?n'"
      using p1 a1 by simp
    have ar: "16 * n - 16 - 65536 = 16 * ?n' - 16" "65536 \<le> 16 * n - 16"
      "v \<le> 16 \<Longrightarrow> 16 * n - v - 65536 = 16 * ?n' - v" "v \<le> 16 \<Longrightarrow> 65536 \<le> 16 * n - v" for v
      using True by simp_all
    have dr: "drop (16 * n - 16) P = drop (16 * ?n' - 16) ?P'"
      unfolding P drop_append lD ar(1) using ar(2) lD by simp
    have neP': "?P' \<noteq> []" using lP' n'(1) by auto
    have lastP: "last P = last ?P'"
      unfolding P using neP' by (simp only: last_append if_False)
    have tk16: "take (16 * n - 16) P = ?D @ take (16 * ?n' - 16) ?P'"
      unfolding P take_append lD ar(1) using ar(2) lD by simp
    have tkv: "take (16 * n - v) P = ?D @ take (16 * ?n' - v) ?P'" if "v \<le> 16" for v
      unfolding P take_append lD ar(3)[OF that] using ar(4)[OF that] lD by simp
    have hc: "d_hctx st' = sha256_update (d_hctx st) cs"
      unfolding ih(2) body(1) using csplit sha256_update_append[of "d_hctx st" ?bs ?cs'] by simp
    have er: "d_err st' = (if valid_padding (drop (16 * n - 16) P) then None else Some InvalidPadding)"
      unfolding ih(3) dr ..
    have fo: "d_fout st' = d_fout st @ (if valid_padding (drop (16 * n - 16) P)
                                       then take (16 * n - unat (last P)) P
                                       else take (16 * n - 16) P)"
    proof (cases "valid_padding (drop (16 * ?n' - 16) ?P')")
      case v: True
      have ll: "last (drop (16 * ?n' - 16) ?P') = last ?P'" using lP' n'(1) by (simp add: last_drop)
      have "unat (last ?P') \<le> 16" using v ll by (simp add: valid_padding_def)
      from tkv[OF this] v show ?thesis unfolding ih(4) f1 dr lastP by simp
    next
      case False
      then show ?thesis unfolding ih(4) f1 dr tk16 by simp
    qed
    show ?thesis using lp hc er fo by blast
  qed
qed

lemma cbc_decrypt_stream_spec:
  assumes len: "length content = 48 + 16 * n" and n: "0 < n"
    and iv: "iv = take 16 content" and cs: "cs = take (16 * n) (drop 16 content)"
    and H: "H = drop (16 + 16 * n) content"
    and P: "P = cbc_dec kb ks n iv cs"
  shows "cbc_decrypt_stream kb \<lparr>f_content = content, f_pos = pos0\<rparr> fout ks =
           Some \<lparr>dec_err = (if valid_padding (drop (16 * n - 16) P) then None else Some InvalidPadding),
                 dec_auth_ok = (valid_padding (drop (16 * n - 16) P) \<and> sha256 cs = H),
                 dec_out = fout @ (if valid_padding (drop (16 * n - 16) P)
                                   then take (16 * n - unat (last P)) P
                                   else take (16 * n - 16) P)\<rparr>"
proof -
  let ?fin = "\<lparr>f_content = content, f_pos = pos0\<rparr>"
  define fin1 where "fin1 = fseek_end ?fin"
  have fsz: "ftell fin1 = int (length content)" by (simp add: fin1_def fseek_end_def ftell_def)
  have c1: "f_content fin1 = content" by (simp add: fin1_def fseek_end_def)
  define fin3 where "fin3 = snd (fread BLOCK_SIZE (fseek_set 0 fin1))"
  have rd1: "fread BLOCK_SIZE (fseek_set 0 fin1) = (iv, fin3)"
    unfolding fin3_def by (simp add: fread_spec fseek_set_def c1 iv BLOCK_SIZE_def)
  have c3: "f_content fin3 = content"
    by (simp add: fin3_def fread_spec fseek_set_def c1)
  have liv: "length iv = BLOCK_SIZE" using len by (simp add: iv BLOCK_SIZE_def)
  define fin4 where "fin4 = snd (fread 32 (fseek_set (nat (int (length content) - 32)) fin3))"
  have pl: "nat (int (length content) - 32) = 16 + 16 * n" using len by simp
  have rd2: "fread 32 (fseek_set (nat (int (length content) - 32)) fin3) = (H, fin4)"
    unfolding fin4_def pl using len by (simp add: fread_spec fseek_set_def c3 H)
  have c4: "f_content fin4 = content"
    by (simp add: fin4_def fread_spec fseek_set_def c3)
  have lH: "length H = 32" using len by (simp add: H)
  have rem: "int (length content) - 32 - int BLOCK_SIZE = int (16 * n)"
    using len by (simp add: BLOCK_SIZE_def)
  define st0 where "st0 = decrypt_start (fseek_set BLOCK_SIZE fin4) fout iv (int (16 * n))"
  have s0: "d_remaining st0 = int (16 * n)" "d_err st0 = None" "length (d_prev st0) = 16"
    "f_pos (d_fin st0) + 16 * n \<le> length (f_content (d_fin st0))"
    "cs = take (16 * n) (drop (f_pos (d_fin st0)) (f_content (d_fin st0)))"
    "P = cbc_dec kb ks n (d_prev st0) cs"
    using len liv
    by (simp_all add: st0_def decrypt_start_def fseek_set_def c4 BLOCK_SIZE_def cs P)
  from decrypt_loop_spec[OF s0(1) n s0(2-6)] obtain st' where
    lp: "decrypt_loop kb ks st0 = Some st'"
    and hc: "d_hctx st' = sha256_update (d_hctx st0) cs"
    and er: "d_err st' = (if valid_padding (drop (16 * n - 16) P) then None else Some InvalidPadding)"
    and fo: "d_fout st' = d_fout st0 @ (if valid_padding (drop (16 * n - 16) P)
                                       then take (16 * n - unat (last P)) P
                                       else take (16 * n - 16) P)"
    by blast
  have small: "\<not> int (length content) < int (BLOCK_SIZE + 32)"
    using len by (simp add: BLOCK_SIZE_def)
  have ok: "\<not> (int (16 * n) \<le> 0 \<or> int (16 * n) mod int BLOCK_SIZE \<noteq> 0)"
    using n by (simp add: BLOCK_SIZE_def)
  have h0: "d_hctx st0 = sha256_init" "d_fout st0 = fout"
    by (simp_all add: st0_def decrypt_start_def)
  have bl: "buf_load (sha256 cs) 0 32 = sha256 cs" "buf_load H 0 32 = H"
    using lH by (simp_all add: buf_load_def)
  show ?thesis
    unfolding cbc_decrypt_stream_def fin1_def[symmetric] Let_def fsz
    apply (simp only: small if_False rd1 prod.case liv simp_thms rd2 lH rem ok st0_def[symmetric] lp option.case)
    apply (simp add: er fo hc h0 sha256_def[symmetric] bl)
    done
qed

section \<open>Decryption inverts encryption\<close>

lemma xor_bytes_cancel: "length x = length prev \<Longrightarrow> xor_bytes (xor_bytes x prev) prev = x"
  unfolding xor_bytes_def
  by (induction x prev rule: list_induct2) (simp_all add: word_bw_assocs)

lemma len_xor_bytes [simp]: "length (xor_bytes x y) = min (length x) (length y)"
  by (simp add: xor_bytes_def)

lemma cbc_block_roundtrip:
  assumes "length x = 16" "length prev = 16"
  shows "cbc_decrypt_block kb ks prev (cbc_encrypt_block kb ks prev x) = x"
proof -
  have l: "length (xor_bytes x prev) = 16" using assms by simp
  show ?thesis
    unfolding cbc_decrypt_block_def cbc_encrypt_block_def be_bytes_of_words gost_block_roundtrip
      be_words_of_bytes[OF l]
    using assms by (simp add: xor_bytes_cancel)
qed

lemma cbc_roundtrip:
  "length prev = 16 \<Longrightarrow> 16 * n \<le> length bs \<Longrightarrow>
   cbc_dec kb ks n prev (cbc_enc kb ks n prev bs) = take (16 * n) bs"
proof (induction n arbitrary: prev bs)
  case 0
  then show ?case by simp
next
  case (Suc n)
  let ?c = "cbc_encrypt_block kb ks prev (take 16 bs)"
  have l16: "length (take 16 bs) = 16" using Suc.prems(2) by simp
  have lc: "length ?c = 16" by simp
  have ih: "cbc_dec kb ks n ?c (cbc_enc kb ks n ?c (drop 16 bs)) = take (16 * n) (drop 16 bs)"
    using Suc.IH[OF lc, of "drop 16 bs"] Suc.prems(2) by simp
  have "cbc_dec kb ks (Suc n) prev (cbc_enc kb ks (Suc n) prev bs)
      = cbc_decrypt_block kb ks prev ?c @ cbc_dec kb ks n ?c (cbc_enc kb ks n ?c (drop 16 bs))"
    by (simp add: Let_def)
  also have "\<dots> = take 16 bs @ take (16 * n) (drop 16 bs)"
    unfolding ih cbc_block_roundtrip[OF l16 Suc.prems(1)] ..
  also have "\<dots> = take (16 * Suc n) bs"
    by (simp add: take_add[symmetric] del: take_add)
  finally show ?case .
qed




section \<open>Properties of the key hash\<close>

lemma hashing_for_spec:
  "x2 g \<le> n1 \<Longrightarrow>
   fst (hashing_for t1 b4 b6 g) = b4 + min b6 (n1 - x2 g) \<and>
   fst (snd (hashing_for t1 b4 b6 g)) = b6 - min b6 (n1 - x2 g) \<and>
   x2 (snd (snd (hashing_for t1 b4 b6 g))) = x2 g + min b6 (n1 - x2 g) \<and>
   length (h2 (snd (snd (hashing_for t1 b4 b6 g)))) = length (h2 g) \<and>
   length (h1 (snd (snd (hashing_for t1 b4 b6 g)))) = length (h1 g)"
proof (induction t1 b4 b6 g rule: hashing_for.induct)
  case (1 t1 b4 b6 g)
  show ?case
  proof (cases "b6 \<noteq> 0 \<and> x2 g < n1")
    case False
    then have "hashing_for t1 b4 b6 g = (b4, b6, g)"
      by (subst hashing_for.simps) auto
    moreover have "min b6 (n1 - x2 g) = 0" using False "1.prems" by auto
    ultimately show ?thesis by simp
  next
    case True
    define b5 where "b5 = src_byte t1 g b4"
    define g1 where "g1 = g\<lparr>h1 := (h1 g)[x2 g + n1 := b5]\<rparr>"
    define g2 where "g2 = g1\<lparr>h1 := (h1 g1)[x2 g1 + n1 * 2 := b5 XOR h1 g1 ! x2 g1]\<rparr>"
    define v where "v = h2 g2 ! x2 g2 XOR s4 ! unat (b5 XOR x1 g2)"
    define g3 where "g3 = g2\<lparr>h2 := (h2 g2)[x2 g2 := v], x1 := v\<rparr>"
    define g4 where "g4 = g3\<lparr>x2 := x2 g3 + 1\<rparr>"
    have step: "hashing_for t1 b4 b6 g = hashing_for t1 (b4 + 1) (b6 - 1) g4"
      using True
      by (subst hashing_for.simps) (simp add: Let_def b5_def g1_def g2_def v_def g3_def g4_def)
    have x4: "x2 g4 = x2 g + 1" "length (h2 g4) = length (h2 g)" "length (h1 g4) = length (h1 g)"
      by (simp_all add: g4_def g3_def g2_def g1_def)
    have le: "x2 g4 \<le> n1" using True x4 by simp
    have ih: "fst (hashing_for t1 (b4 + 1) (b6 - 1) g4) = b4 + 1 + min (b6 - 1) (n1 - x2 g4) \<and>
       fst (snd (hashing_for t1 (b4 + 1) (b6 - 1) g4)) = b6 - 1 - min (b6 - 1) (n1 - x2 g4) \<and>
       x2 (snd (snd (hashing_for t1 (b4 + 1) (b6 - 1) g4))) = x2 g4 + min (b6 - 1) (n1 - x2 g4) \<and>
       length (h2 (snd (snd (hashing_for t1 (b4 + 1) (b6 - 1) g4)))) = length (h2 g4) \<and>
       length (h1 (snd (snd (hashing_for t1 (b4 + 1) (b6 - 1) g4)))) = length (h1 g4)"
      using "1.IH"[OF True b5_def g1_def g2_def v_def g3_def, folded g4_def] le by simp
    have m: "min b6 (n1 - x2 g) = 1 + min (b6 - 1) (n1 - x2 g4)"
      unfolding x4(1) using True by linarith
    show ?thesis unfolding step using ih x4 m by simp
  qed
qed

lemma x2_compress: "x2 g \<le> n1 \<Longrightarrow> x2 (compress g) < n1"
  by (simp add: compress_def n1_def)

lemma hashing_loop_total:
  "x2 g < n1 \<Longrightarrow> \<exists>g'. hashing_loop t1 b4 b6 g = Some g' \<and> x2 g' < n1"
proof (induction b6 arbitrary: b4 g rule: less_induct)
  case (less b6)
  show ?case
  proof (cases "b6 = 0")
    case True
    then show ?thesis using less.prems by (subst hashing_loop.simps) simp
  next
    case False
    obtain b4' b6' g1 where hf: "hashing_for t1 b4 b6 g = (b4', b6', g1)"
      by (cases "hashing_for t1 b4 b6 g") auto
    have le: "x2 g \<le> n1" using less.prems by simp
    from hashing_for_spec[OF le, of t1 b4 b6] hf
    have b6': "b6' = b6 - min b6 (n1 - x2 g)" and x: "x2 g1 = x2 g + min b6 (n1 - x2 g)"
      by simp_all
    have "b6' < b6" using b6' False less.prems by (simp add: min_def)
    moreover have "x2 g1 \<le> n1" using x less.prems by (cases "b6 \<le> n1 - x2 g") simp_all
    then have "x2 (compress g1) < n1" by (rule x2_compress)
    ultimately obtain g' where "hashing_loop t1 b4' b6' (compress g1) = Some g'" "x2 g' < n1"
      using less.IH by blast
    then show ?thesis
      using False hf by (subst hashing_loop.simps) simp
  qed
qed

lemma hashing_for_alias:
  "b4 = x2 g \<Longrightarrow> (\<forall>j. x2 g \<le> j \<longrightarrow> h2 g ! j = snap ! j) \<Longrightarrow>
   hashing_for H2 b4 b6 g = hashing_for (Mem snap) b4 b6 g"
proof (induction b6 arbitrary: b4 g)
  case 0
  show ?case by (subst hashing_for.simps, subst (2) hashing_for.simps) simp
next
  case (Suc b6)
  show ?case
  proof (cases "x2 g < n1")
    case False
    then show ?thesis by (subst hashing_for.simps, subst (2) hashing_for.simps) simp
  next
    case True
    define b5 where "b5 = snap ! b4"
    have rd: "src_byte H2 g b4 = b5" "src_byte (Mem snap) g b4 = b5"
      using Suc.prems by (simp_all add: src_byte_def b5_def)
    define v where "v = h2 g ! x2 g XOR s4 ! unat (b5 XOR x1 g)"
    define g4 where "g4 = g\<lparr>h1 := (h1 g)[x2 g + n1 := b5, x2 g + n1 * 2 := b5 XOR (h1 g)[x2 g + n1 := b5] ! x2 g],
        h2 := (h2 g)[x2 g := v], x1 := v, x2 := x2 g + 1\<rparr>"
    have s1: "hashing_for H2 b4 (Suc b6) g = hashing_for H2 (b4 + 1) b6 g4"
      using True by (subst hashing_for.simps) (simp add: Let_def rd v_def g4_def)
    have s2: "hashing_for (Mem snap) b4 (Suc b6) g = hashing_for (Mem snap) (b4 + 1) b6 g4"
      using True by (subst hashing_for.simps) (simp add: Let_def rd v_def g4_def)
    have a: "b4 + 1 = x2 g4" using Suc.prems(1) by (simp add: g4_def)
    have b: "\<forall>j. x2 g4 \<le> j \<longrightarrow> h2 g4 ! j = snap ! j"
      using Suc.prems(2) by (simp add: g4_def)
    show ?thesis unfolding s1 s2 by (rule Suc.IH[OF a b])
  qed
qed

lemma hashing_window:
  assumes "x2 g = 0"
  shows "hashing t1 n1 g = Some (compress (snd (snd (hashing_for t1 0 n1 g))))"
proof -
  obtain b4' b6' g1 where hf: "hashing_for t1 0 n1 g = (b4', b6', g1)"
    by (cases "hashing_for t1 0 n1 g") auto
  have "x2 g \<le> n1" using assms by simp
  from hashing_for_spec[OF this, of t1 0 n1] hf assms have b6': "b6' = 0" by simp
  have "hashing_loop t1 0 n1 g = hashing_loop t1 b4' b6' (compress g1)"
    using hf by (subst hashing_loop.simps) (simp add: n1_def)
  also have "\<dots> = Some (compress g1)"
    unfolding b6' by (subst hashing_loop.simps) simp
  finally show ?thesis by (simp add: hashing_def hf)
qed

lemma hashing_h2_alias:
  assumes "x2 g = 0"
  shows "hashing H2 n1 g = hashing (Mem (h2 g)) n1 g"
proof -
  have "hashing_for H2 0 n1 g = hashing_for (Mem (h2 g)) 0 n1 g"
    by (rule hashing_for_alias) (simp_all add: assms)
  then show ?thesis unfolding hashing_window[OF assms] by simp
qed

lemma len_h2_compress [simp]: "length (h2 (compress g)) = length (h2 g)"
  by (simp add: compress_def)

lemma len_compress_row: "length (snd (compress_row b1 b2 h)) = length h"
proof (induction b1 b2 h rule: compress_row.induct)
  case (1 b1 b2 h)
  show ?case
  proof (cases "b1 < n1 * 3")
    case True
    then have "compress_row b1 b2 h = compress_row (b1 + 1) (h ! b1 XOR s4 ! unat b2) (h[b1 := h ! b1 XOR s4 ! unat b2])"
      by (subst compress_row.simps) (simp add: Let_def)
    with "1.IH"[OF True refl] show ?thesis by simp
  next
    case False
    then show ?thesis by (subst compress_row.simps) simp
  qed
qed

lemma len_compress_loop: "length (snd (compress_loop b3 b2 h)) = length h"
proof (induction b3 b2 h rule: compress_loop.induct)
  case (1 b3 b2 h)
  show ?case
  proof (cases "b3 < n1 + 2")
    case True
    obtain b2' h' where r: "compress_row 0 b2 h = (b2', h')" by (cases "compress_row 0 b2 h") auto
    have lh: "length h' = length h" using len_compress_row[of 0 b2 h] r by simp
    have "compress_loop b3 b2 h = compress_loop (b3 + 1) (of_nat ((unat b2' + b3) mod 256)) h'"
      using True r by (subst compress_loop.simps) simp
    with "1.IH"[OF True r[symmetric]] lh show ?thesis by simp
  next
    case False
    then show ?thesis by (subst compress_loop.simps) simp
  qed
qed

lemma len_h1_compress [simp]: "length (h1 (compress g)) = length (h1 g)"
  by (simp add: compress_def len_compress_loop)

lemma hashing_loop_lengths:
  "x2 g < n1 \<Longrightarrow> hashing_loop t1 b4 b6 g = Some g' \<Longrightarrow>
   length (h2 g') = length (h2 g) \<and> length (h1 g') = length (h1 g)"
proof (induction b6 arbitrary: b4 g rule: less_induct)
  case (less b6)
  show ?case
  proof (cases "b6 = 0")
    case True
    then have "hashing_loop t1 b4 b6 g = Some g" by (subst hashing_loop.simps) simp
    with less.prems(2) show ?thesis by simp
  next
    case False
    obtain b4' b6' g1 where hf: "hashing_for t1 b4 b6 g = (b4', b6', g1)"
      by (cases "hashing_for t1 b4 b6 g") auto
    have le: "x2 g \<le> n1" using less.prems by simp
    from hashing_for_spec[OF le, of t1 b4 b6] hf
    have b6': "b6' = b6 - min b6 (n1 - x2 g)" and x: "x2 g1 = x2 g + min b6 (n1 - x2 g)"
      and l: "length (h2 g1) = length (h2 g)" "length (h1 g1) = length (h1 g)"
      by simp_all
    have lt: "b6' < b6" using b6' False less.prems by (simp add: min_def)
    have "x2 g1 \<le> n1" using x less.prems by (cases "b6 \<le> n1 - x2 g") simp_all
    then have xc: "x2 (compress g1) < n1" by (rule x2_compress)
    have "hashing_loop t1 b4 b6 g = hashing_loop t1 b4' b6' (compress g1)"
      using False hf by (subst hashing_loop.simps) simp
    with less.prems(2) have "hashing_loop t1 b4' b6' (compress g1) = Some g'" by simp
    from less.IH[OF lt xc this] l show ?thesis by simp
  qed
qed

lemma hashing_pad:
  assumes "x2 g < n1"
  shows "\<exists>g'. hashing (Mem pad) (n1 - x2 g) g = Some g' \<and> x2 g' = 0"
proof -
  obtain b4' b6' g1 where hf: "hashing_for (Mem pad) 0 (n1 - x2 g) g = (b4', b6', g1)"
    by (cases "hashing_for (Mem pad) 0 (n1 - x2 g) g") auto
  have "x2 g \<le> n1" using assms by simp
  from hashing_for_spec[OF this, of "Mem pad" 0 "n1 - x2 g"] hf assms
  have b6': "b6' = 0" and x: "x2 g1 = n1" by simp_all
  have "hashing_loop (Mem pad) 0 (n1 - x2 g) g = hashing_loop (Mem pad) b4' b6' (compress g1)"
    using hf assms by (subst hashing_loop.simps) simp
  also have "\<dots> = Some (compress g1)"
    unfolding b6' by (subst hashing_loop.simps) simp
  finally show ?thesis using x by (simp add: hashing_def compress_def)
qed

lemma byte_and_ff: "(b :: byte) AND 0xff = b"
proof -
  have "(0xff :: byte) = mask 8" by (simp add: mask_eq_exp_minus_1)
  then show ?thesis by (simp add: bit_eq_iff bit_simps)
qed

lemma key_step: "push_bit 8 (of_nat N :: word64) + ucast ((b :: byte) AND 0xff) = of_nat (256 * N + unat b)"
  by (simp add: byte_and_ff push_bit_eq_mult mult.commute)

lemma spec_be_uint_snoc: "spec_be_uint (xs @ [b]) = 256 * spec_be_uint xs + unat b"
  by (simp add: spec_be_uint_def)

lemma key_fold:
  "m \<le> 8 \<Longrightarrow> 8 * i + 8 \<le> length h4 \<Longrightarrow>
   fold (\<lambda>z key. push_bit 8 key + ucast (h4 ! (8 * i + z) AND 0xff)) [0..<m] (0 :: word64)
     = of_nat (spec_be_uint (take m (drop (8 * i) h4)))"
proof (induction m)
  case 0
  then show ?case by (simp add: spec_be_uint_def)
next
  case (Suc m)
  have lt: "m < length (drop (8 * i) h4)" using Suc.prems by simp
  have tk: "take (Suc m) (drop (8 * i) h4) = take m (drop (8 * i) h4) @ [h4 ! (8 * i + m)]"
    using take_Suc_conv_app_nth[OF lt] Suc.prems by simp
  have ih: "fold (\<lambda>z key. push_bit 8 key + ucast (h4 ! (8 * i + z) AND 0xff)) [0..<m] (0 :: word64)
     = of_nat (spec_be_uint (take m (drop (8 * i) h4)))"
    using Suc by simp
  show ?case
    unfolding tk spec_be_uint_snoc by (simp add: ih key_step del: of_nat_add of_nat_mult)
qed

lemma create_keys_spec: "length h4 = 512 \<Longrightarrow> create_keys h4 = spec_subkeys h4"
  unfolding create_keys_def spec_subkeys_def
  by (rule map_cong[OF refl]) (simp add: key_fold)

lemma keyhash_pad_spec: "keyhash_pad g = spec_pad g"
proof -
  have "(of_nat (n mod 256) :: byte) = of_nat n" for n :: nat
    by (simp add: word_of_nat_eq_iff take_bit_eq_mod)
  then show ?thesis by (simp add: keyhash_pad_def spec_pad_def Let_def)
qed

lemma zero_fill_length [simp]: "length (zero_fill d i n) = length d"
proof -
  have "length (fold (\<lambda>j d'. d'[j := 0 :: byte]) xs d) = length d" for xs
    by (induction xs arbitrary: d) simp_all
  then show ?thesis by (simp add: zero_fill_def)
qed

lemma init_static:
  "x2 (init_gost_keyhash keyhash_static) = 0"
  "length (h2 (init_gost_keyhash keyhash_static)) = n1"
  "length (h1 (init_gost_keyhash keyhash_static)) = n1 * 3"
  by (simp_all add: init_gost_keyhash_def keyhash_static_def)

lemma derive_steps:
  "\<exists>g1 g2 g3.
     hashing (Mem password) (length password) (init_gost_keyhash keyhash_static) = Some g1
     \<and> x2 g1 < n1
     \<and> hashing (Mem (spec_pad g1)) (length (spec_pad g1)) g1 = Some g2
     \<and> length (h2 g2) = n1
     \<and> hashing (Mem (h2 g2)) (length (h2 g2)) g2 = Some g3
     \<and> length (take n1 (h1 g3)) = n1
     \<and> derive_gost_subkeys_from_password password keyhash_static
         = Some (spec_subkeys (take n1 (h1 g3)), g3)"
proof -
  let ?g0 = "init_gost_keyhash keyhash_static"
  have x0: "x2 ?g0 < n1" by (simp add: init_static n1_def)
  from hashing_loop_total[OF x0, of "Mem password" 0 "length password"]
  obtain g1 where h1: "hashing (Mem password) (length password) ?g0 = Some g1" and x1: "x2 g1 < n1"
    by (auto simp: hashing_def)
  have l1: "length (h2 g1) = n1" "length (h1 g1) = n1 * 3"
    using hashing_loop_lengths[OF x0 h1[unfolded hashing_def]] by (simp_all add: init_static)
  have lp: "length (spec_pad g1) = n1 - x2 g1" by (simp add: spec_pad_def)
  from hashing_pad[OF x1, of "spec_pad g1"]
  obtain g2 where h2: "hashing (Mem (spec_pad g1)) (n1 - x2 g1) g1 = Some g2" and x2: "x2 g2 = 0"
    by blast
  have l2: "length (h2 g2) = n1" "length (h1 g2) = n1 * 3"
    using hashing_loop_lengths[OF x1 h2[unfolded hashing_def]] l1 by simp_all
  have x2': "x2 g2 < n1" using x2 by (simp add: n1_def)
  from hashing_loop_total[OF x2', of "Mem (h2 g2)" 0 n1]
  obtain g3 where h3: "hashing (Mem (h2 g2)) n1 g2 = Some g3"
    by (auto simp: hashing_def)
  have l3: "length (h1 g3) = n1 * 3"
    using hashing_loop_lengths[OF x2' h3[unfolded hashing_def]] l2 by simp
  have al: "hashing H2 n1 g2 = Some g3"
    unfolding hashing_h2_alias[OF x2] by (rule h3)
  have ld: "length (take n1 (h1 g3)) = 512" using l3 by (simp add: n1_def)
  have e: "end_gost_keyhash g1 = Some (take n1 (h1 g3), g3)"
    unfolding end_gost_keyhash_def Let_def keyhash_pad_spec h2 option.case al
    by (simp add: buf_load_def)
  have d: "derive_gost_subkeys_from_password password keyhash_static
         = Some (spec_subkeys (take n1 (h1 g3)), g3)"
    unfolding derive_gost_subkeys_from_password_def h1 option.case e
    by (simp add: create_keys_spec[OF ld])
  show ?thesis
    using h1 x1 h2 l2(1) h3 ld d lp by (auto simp: n1_def)
qed

lemma derive_total:
  "\<exists>ks g. derive_gost_subkeys_from_password password keyhash_static = Some (ks, g) \<and> length ks = 64"
  using derive_steps[of password] by (auto simp: spec_subkeys_def)

section \<open>The claims about the stream codec\<close>

lemma derived_subkeys_Some:
  "\<exists>g. derive_gost_subkeys_from_password password keyhash_static = Some (derived_subkeys password, g)"
  using derive_total[of password] by (auto simp: derived_subkeys_def)



text \<open>
  C5: for every plaintext of length \<open>L\<close>, what \<open>cbc_encrypt_stream\<close> writes is the IV,
  the ciphertext and the 32-byte digest, \<open>16 + ciphertext_length + 32\<close> bytes, where
  \<open>ciphertext_length = (L div 16 + 1) * 16\<close> is a positive multiple of 16 that exceeds
  \<open>L\<close> by 1 to 16 bytes, by a whole block of 16 when \<open>L\<close> is a multiple of 16; an empty
  plaintext gives 64 bytes.
\<close>

theorem encrypted_length:
  assumes "length iv = 16"
  shows "enc_err (cbc_encrypt_stream kb \<lparr>f_content = p, f_pos = 0\<rparr> [] ks iv) = None \<and>
         enc_out (cbc_encrypt_stream kb \<lparr>f_content = p, f_pos = 0\<rparr> [] ks iv)
           = iv @ ciphertext kb ks iv p @ sha256 (ciphertext kb ks iv p) \<and>
         length (ciphertext kb ks iv p) = (length p div 16 + 1) * 16 \<and>
         length (sha256 (ciphertext kb ks iv p)) = 32 \<and>
         length (enc_out (cbc_encrypt_stream kb \<lparr>f_content = p, f_pos = 0\<rparr> [] ks iv))
           = 16 + (length p div 16 + 1) * 16 + 32 \<and>
         (length p div 16 + 1) * 16 mod 16 = 0 \<and>
         0 < (length p div 16 + 1) * 16 \<and>
         length p < (length p div 16 + 1) * 16 \<and>
         1 \<le> (length p div 16 + 1) * 16 - length p \<and>
         (length p div 16 + 1) * 16 - length p \<le> 16 \<and>
         (length p mod 16 = 0 \<longrightarrow> (length p div 16 + 1) * 16 = length p + 16) \<and>
         (p = [] \<longrightarrow> length (enc_out (cbc_encrypt_stream kb \<lparr>f_content = p, f_pos = 0\<rparr> [] ks iv)) = 64)"
proof -
  let ?n = "length p div 16 + 1"
  have lC: "length (ciphertext kb ks iv p) = ?n * 16"
    unfolding ciphertext_def length_padded by (simp only: len_cbc_enc nonzero_mult_div_cancel_left)
  have out: "enc_out (cbc_encrypt_stream kb \<lparr>f_content = p, f_pos = 0\<rparr> [] ks iv)
      = iv @ ciphertext kb ks iv p @ sha256 (ciphertext kb ks iv p)"
    by (simp add: cbc_encrypt_stream_spec[OF assms] container_def)
  have a: "length p < ?n * 16" "?n * 16 - length p \<le> 16" "length p mod 16 = 0 \<longrightarrow> ?n * 16 = length p + 16"
    by presburger+
  have l: "length (enc_out (cbc_encrypt_stream kb \<lparr>f_content = p, f_pos = 0\<rparr> [] ks iv)) = 16 + ?n * 16 + 32"
    unfolding out using assms lC by simp
  have e: "p = [] \<longrightarrow> length (enc_out (cbc_encrypt_stream kb \<lparr>f_content = p, f_pos = 0\<rparr> [] ks iv)) = 64"
    unfolding l by simp
  have err: "enc_err (cbc_encrypt_stream kb \<lparr>f_content = p, f_pos = 0\<rparr> [] ks iv) = None"
    by (simp add: cbc_encrypt_stream_spec[OF assms])
  from a(1) have b: "1 \<le> ?n * 16 - length p" by linarith
  show ?thesis
    using err out lC l a b e by simp
qed

theorem encrypted_length_witness:
  "length (replicate 16 (0 :: byte)) = 16 \<and>
   length (enc_out (cbc_encrypt_stream kboxinit \<lparr>f_content = [], f_pos = 0\<rparr> [] (replicate 64 0)
                      (replicate 16 0))) = 64"
proof -
  have h: "length (replicate 16 (0 :: byte)) = 16" by simp
  from encrypted_length[OF h, of kboxinit "[]" "replicate 64 0"] h show ?thesis by simp
qed



text \<open>
  C7: for every input that passes the format checks and whose last decrypted block meets
  the padding rule, \<open>cbc_decrypt_stream\<close> ends without an error and with all the recovered
  plaintext in the output file, whether or not the digest of the ciphertext equals the
  stored 32 bytes; \<open>auth_ok\<close> alone says which. \<open>main\<close> then returns 0, keeps the output
  file and prints the authentication line.
\<close>

theorem authentication_mismatch_is_not_fatal:
  assumes "length content = 48 + 16 * n" and "0 < n"
    and "cs = take (16 * n) (drop 16 content)"
    and "P = cbc_dec kboxinit (derived_subkeys password) n (take 16 content) cs"
    and "valid_padding (drop (16 * n - 16) P)"
  shows "cbc_decrypt_stream kboxinit \<lparr>f_content = content, f_pos = 0\<rparr> [] (derived_subkeys password)
           = Some \<lparr>dec_err = None,
                   dec_auth_ok = (sha256 cs = drop (16 + 16 * n) content),
                   dec_out = take (16 * n - unat (last P)) P\<rparr> \<and>
         main [prog, ''d'', path] (Some content) True password iv
           = Some \<lparr>exit_code = 0,
                   output_file = Some (take (16 * n - unat (last P)) P),
                   auth_report = Some (sha256 cs = drop (16 + 16 * n) content),
                   password_cell = Zeroed,
                   subkeys_cell = Holds (derived_subkeys password)\<rparr>"
proof -
  have sp: "cbc_decrypt_stream kboxinit \<lparr>f_content = content, f_pos = 0\<rparr> [] (derived_subkeys password)
           = Some \<lparr>dec_err = None,
                   dec_auth_ok = (sha256 cs = drop (16 + 16 * n) content),
                   dec_out = take (16 * n - unat (last P)) P\<rparr>"
    unfolding cbc_decrypt_stream_spec[OF assms(1,2) refl assms(3) refl assms(4)]
    using assms(5) by simp
  obtain g where d: "derive_gost_subkeys_from_password password keyhash_static
      = Some (derived_subkeys password, g)"
    using derived_subkeys_Some by blast
  have "main [prog, ''d'', path] (Some content) True password iv
           = Some \<lparr>exit_code = 0,
                   output_file = Some (take (16 * n - unat (last P)) P),
                   auth_report = Some (sha256 cs = drop (16 + 16 * n) content),
                   password_cell = Zeroed,
                   subkeys_cell = Holds (derived_subkeys password)\<rparr>"
    unfolding main_def by (simp add: d sp Let_def)
  with sp show ?thesis by simp
qed

theorem authentication_mismatch_is_not_fatal_witness:
  "\<exists>c a. length c = 16 \<and>
     main [''gost2file'', ''d'', ''f''] (Some (replicate 16 0 @ c @ replicate 32 0)) True [] []
       = Some \<lparr>exit_code = 0, output_file = Some [], auth_report = Some a,
               password_cell = Zeroed, subkeys_cell = Holds (derived_subkeys [])\<rparr> \<and>
     a = (sha256 c = replicate 32 0)"
proof -
  define iv :: "byte list" where "iv = replicate 16 0"
  define blk :: "byte list" where "blk = replicate 16 16"
  define c where "c = cbc_enc kboxinit (derived_subkeys []) 1 iv blk"
  define content where "content = iv @ c @ replicate 32 0"
  have liv: "length iv = 16" by (simp add: iv_def)
  have lc: "length c = 16" by (simp add: c_def)
  have h1: "length content = 48 + 16 * 1" by (simp add: content_def liv lc)
  have h2: "(0 :: nat) < 1" by simp
  have tk: "take 16 content = iv" by (simp add: content_def liv)
  have h3: "c = take (16 * 1) (drop 16 content)" by (simp add: content_def liv lc)
  have P: "cbc_dec kboxinit (derived_subkeys []) 1 (take 16 content) c = blk"
    unfolding tk c_def using cbc_roundtrip[OF liv, of 1 blk kboxinit "derived_subkeys []"]
    by (simp add: blk_def)
  have h5: "valid_padding (drop (16 * 1 - 16) (cbc_dec kboxinit (derived_subkeys []) 1 (take 16 content) c))"
    unfolding P by (simp add: blk_def valid_padding_def list_all_iff)
  have dr: "drop (16 + 16 * 1) content = replicate 32 0" by (simp add: content_def liv lc)
  have lst: "16 * 1 - unat (last blk) = 0" by (simp add: blk_def)
  from authentication_mismatch_is_not_fatal[OF h1 h2 h3 refl h5, of "''gost2file''" "''f''" "[]"]
  have "main [''gost2file'', ''d'', ''f''] (Some content) True [] []
       = Some \<lparr>exit_code = 0, output_file = Some [], auth_report = Some (sha256 c = replicate 32 0),
               password_cell = Zeroed, subkeys_cell = Holds (derived_subkeys [])\<rparr>"
    unfolding P dr lst by simp
  then show ?thesis unfolding content_def iv_def using lc by blast
qed

section \<open>The chunks of the decryption loop\<close>

text \<open>
  For an input of \<open>48 + 16 * n\<close> bytes, \<open>n > 0\<close>, \<open>cbc_decrypt_stream\<close> passes its format
  checks and enters its loop with the file at offset 16 and \<open>remaining = 16 * n\<close>.
\<close>

lemma decrypt_stream_enters_loop:
  assumes len: "length content = 48 + 16 * n" and n: "0 < n"
  shows "cbc_decrypt_stream kb \<lparr>f_content = content, f_pos = pos0\<rparr> fout ks =
           (case decrypt_loop kb ks
                   (decrypt_start \<lparr>f_content = content, f_pos = 16\<rparr> fout (take 16 content) (int (16 * n))) of
              None \<Rightarrow> None
            | Some st \<Rightarrow>
                if d_err st \<noteq> None
                then Some \<lparr>dec_err = d_err st, dec_auth_ok = False, dec_out = d_fout st\<rparr>
                else Some \<lparr>dec_err = None,
                          dec_auth_ok = (take 32 (sha256_final (d_hctx st)) = drop (16 + 16 * n) content),
                          dec_out = d_fout st\<rparr>)"
proof -
  let ?fin = "\<lparr>f_content = content, f_pos = pos0\<rparr>"
  define iv where "iv = take 16 content"
  define H where "H = drop (16 + 16 * n) content"
  define fin1 where "fin1 = fseek_end ?fin"
  have fsz: "ftell fin1 = int (length content)" by (simp add: fin1_def fseek_end_def ftell_def)
  have c1: "f_content fin1 = content" by (simp add: fin1_def fseek_end_def)
  define fin3 where "fin3 = snd (fread BLOCK_SIZE (fseek_set 0 fin1))"
  have rd1: "fread BLOCK_SIZE (fseek_set 0 fin1) = (iv, fin3)"
    unfolding fin3_def by (simp add: fread_spec fseek_set_def c1 iv_def BLOCK_SIZE_def)
  have c3: "f_content fin3 = content"
    by (simp add: fin3_def fread_spec fseek_set_def c1)
  have liv: "length iv = BLOCK_SIZE" using len by (simp add: iv_def BLOCK_SIZE_def)
  define fin4 where "fin4 = snd (fread 32 (fseek_set (nat (int (length content) - 32)) fin3))"
  have pl: "nat (int (length content) - 32) = 16 + 16 * n" using len by simp
  have rd2: "fread 32 (fseek_set (nat (int (length content) - 32)) fin3) = (H, fin4)"
    unfolding fin4_def pl using len by (simp add: fread_spec fseek_set_def c3 H_def)
  have c4: "f_content fin4 = content"
    by (simp add: fin4_def fread_spec fseek_set_def c3)
  have lH: "length H = 32" using len by (simp add: H_def)
  have rem: "int (length content) - 32 - int BLOCK_SIZE = int (16 * n)"
    using len by (simp add: BLOCK_SIZE_def)
  have f5: "fseek_set BLOCK_SIZE fin4 = \<lparr>f_content = content, f_pos = 16\<rparr>"
    using c4 by (cases fin4) (simp add: fseek_set_def BLOCK_SIZE_def)
  have small: "\<not> int (length content) < int (BLOCK_SIZE + 32)"
    using len by (simp add: BLOCK_SIZE_def)
  have ok: "\<not> (int (16 * n) \<le> 0 \<or> int (16 * n) mod int BLOCK_SIZE \<noteq> 0)"
    using n by (simp add: BLOCK_SIZE_def)
  have bl: "buf_load x 0 32 = take 32 x" for x :: "byte list"
    by (simp add: buf_load_def)
  have tk: "take 32 (drop (16 + 16 * n) content) = drop (16 + 16 * n) content"
    using len by simp
  show ?thesis
    unfolding cbc_decrypt_stream_def fin1_def[symmetric] Let_def fsz
    apply (simp only: small if_False rd1 prod.case liv simp_thms rd2 lH rem ok f5)
    apply (simp only: bl H_def iv_def tk)
    done
qed

text \<open>What holds at the head of the loop, whenever it is reached.\<close>

lemma decrypt_reaches_invariant:
  assumes len: "length content = 48 + 16 * n"
    and reach: "decrypt_reaches kb ks
                  (decrypt_start \<lparr>f_content = content, f_pos = 16\<rparr> fout (take 16 content) (int (16 * n))) st"
  shows "\<exists>m. d_remaining st = int (16 * m) \<and> d_err st = None \<and> length (d_prev st) = 16 \<and>
             f_pos (d_fin st) + 16 * m \<le> length (f_content (d_fin st))"
  using reach
proof (induction rule: decrypt_reaches.induct)
  case start
  have "d_remaining (decrypt_start \<lparr>f_content = content, f_pos = 16\<rparr> fout (take 16 content) (int (16 * n))) = int (16 * n)"
    by (simp add: decrypt_start_def)
  moreover have "length (d_prev (decrypt_start \<lparr>f_content = content, f_pos = 16\<rparr> fout (take 16 content) (int (16 * n)))) = 16"
    using len by (simp add: decrypt_start_def)
  moreover have "d_err (decrypt_start \<lparr>f_content = content, f_pos = 16\<rparr> fout (take 16 content) (int (16 * n))) = None"
    by (simp add: decrypt_start_def)
  moreover have "f_pos (d_fin (decrypt_start \<lparr>f_content = content, f_pos = 16\<rparr> fout (take 16 content) (int (16 * n)))) + 16 * n
      \<le> length (f_content (d_fin (decrypt_start \<lparr>f_content = content, f_pos = 16\<rparr> fout (take 16 content) (int (16 * n)))))"
    using len by (simp add: decrypt_start_def)
  ultimately show ?case by blast
next
  case (pass st)
  then obtain m where m: "d_remaining st = int (16 * m)" and e: "d_err st = None"
    and pv: "length (d_prev st) = 16"
    and av: "f_pos (d_fin st) + 16 * m \<le> length (f_content (d_fin st))"
    by blast
  have mp: "0 < m" using pass.hyps(2) m by simp
  define k where "k = (if 4096 < m then 4096 else m)"
  have km: "k \<le> m" by (simp add: k_def)
  note sp = decrypt_body_spec[OF m mp e pv av k_def refl refl, of kb ks]
  have "d_remaining (decrypt_body kb ks st) = int (16 * (m - k))" by (rule sp(2))
  moreover have "length (d_prev (decrypt_body kb ks st)) = 16"
    unfolding sp(4) using pv av km by (simp add: len_cbc_dec_prev)
  moreover have "f_pos (d_fin (decrypt_body kb ks st)) + 16 * (m - k)
      \<le> length (f_content (d_fin (decrypt_body kb ks st)))"
    unfolding sp(3) using av km by simp
  ultimately show ?case using pass.hyps(3) by blast
qed

text \<open>
  One pass of the loop, from a state in which the loop is at its head with
  \<open>remaining > 0\<close>: the chunk asked for, the chunk read, and the errors the pass cannot
  end with.
\<close>

lemma decrypt_pass_chunk:
  assumes "length content = 48 + 16 * n" and "0 < n"
    and "st0 = decrypt_start \<lparr>f_content = content, f_pos = 16\<rparr> fout (take 16 content) (int (16 * n))"
    and "decrypt_reaches kb ks st0 st" and "d_remaining st > 0"
    and "toread = chunk_size (d_remaining st)"
    and "r = length (fst (fread toread (d_fin st)))"
  shows "cbc_decrypt_stream kb \<lparr>f_content = content, f_pos = pos0\<rparr> fout ks =
           (case decrypt_loop kb ks st0 of
              None \<Rightarrow> None
            | Some st' \<Rightarrow>
                if d_err st' \<noteq> None
                then Some \<lparr>dec_err = d_err st', dec_auth_ok = False, dec_out = d_fout st'\<rparr>
                else Some \<lparr>dec_err = None,
                          dec_auth_ok = (take 32 (sha256_final (d_hctx st')) = drop (16 + 16 * n) content),
                          dec_out = d_fout st'\<rparr>)"
    and "r = toread" and "0 < r" and "r mod BLOCK_SIZE = 0" and "BLOCK_SIZE \<le> r"
    and "d_err (decrypt_body kb ks st) \<noteq> Some ShortLastChunk"
    and "d_err (decrypt_body kb ks st) \<noteq> Some IOError"
    and "\<exists>res. cbc_decrypt_stream kb \<lparr>f_content = content, f_pos = pos0\<rparr> fout ks = Some res \<and>
           dec_err res \<noteq> Some ShortLastChunk \<and> dec_err res \<noteq> Some IOError"
proof -
  show "cbc_decrypt_stream kb \<lparr>f_content = content, f_pos = pos0\<rparr> fout ks =
           (case decrypt_loop kb ks st0 of
              None \<Rightarrow> None
            | Some st' \<Rightarrow>
                if d_err st' \<noteq> None
                then Some \<lparr>dec_err = d_err st', dec_auth_ok = False, dec_out = d_fout st'\<rparr>
                else Some \<lparr>dec_err = None,
                          dec_auth_ok = (take 32 (sha256_final (d_hctx st')) = drop (16 + 16 * n) content),
                          dec_out = d_fout st'\<rparr>)"
    unfolding assms(3) by (rule decrypt_stream_enters_loop[OF assms(1,2)])
  from decrypt_reaches_invariant[OF assms(1) assms(4)[unfolded assms(3)]]
  obtain m where m: "d_remaining st = int (16 * m)" and e: "d_err st = None"
    and pv: "length (d_prev st) = 16"
    and av: "f_pos (d_fin st) + 16 * m \<le> length (f_content (d_fin st))"
    by blast
  have mp: "0 < m" using assms(5) m by simp
  define k where "k = (if 4096 < m then 4096 else m)"
  have km: "k \<le> m" "0 < k" using mp by (simp_all add: k_def)
  have tr: "toread = 16 * k"
    unfolding assms(6) m chunk_size_whole by (simp add: k_def READ_CHUNK_def)
  show rt: "r = toread"
    unfolding assms(7) tr using av km by (simp add: fread_spec)
  show "0 < r" unfolding rt tr using km by simp
  show "r mod BLOCK_SIZE = 0" unfolding rt tr by (simp add: BLOCK_SIZE_def)
  show "BLOCK_SIZE \<le> r" unfolding rt tr using km by (simp add: BLOCK_SIZE_def)
  note sp = decrypt_body_spec[OF m mp e pv av k_def refl refl, of kb ks]
  have er: "d_err (decrypt_body kb ks st) = None \<or> d_err (decrypt_body kb ks st) = Some InvalidPadding"
  proof (cases "4096 < m")
    case True
    then show ?thesis using sp(5) by simp
  next
    case False
    then have "m \<le> 4096" by simp
    from sp(6)[OF this] show ?thesis by (simp split: if_splits)
  qed
  then show "d_err (decrypt_body kb ks st) \<noteq> Some ShortLastChunk" by auto
  from er show "d_err (decrypt_body kb ks st) \<noteq> Some IOError" by auto
  from cbc_decrypt_stream_spec[where kb = kb and ks = ks and ?pos0.0 = pos0 and fout = fout, OF assms(1,2) refl refl refl refl]
  show "\<exists>res. cbc_decrypt_stream kb \<lparr>f_content = content, f_pos = pos0\<rparr> fout ks = Some res \<and>
           dec_err res \<noteq> Some ShortLastChunk \<and> dec_err res \<noteq> Some IOError"
    by simp
qed

text \<open>
  C10: take an input of \<open>48 + 16 * n\<close> bytes with \<open>n > 0\<close>, that is, one that passes the
  format checks. Then \<open>cbc_decrypt_stream\<close> enters its loop in the state \<open>st0\<close> below.
  In every state \<open>st\<close> in which the loop is at its head with \<open>remaining > 0\<close>, the size
  \<open>toread\<close> asked of \<open>fread\<close> is a positive multiple of 16, \<open>fread\<close> returns exactly that
  many bytes \<open>r\<close>, so \<open>r\<close> is at least 16 also in the last pass, and the pass does not
  end with the error of the branch \<open>if (r < BLOCK_SIZE)\<close>, nor with a read error. The whole
  run returns, and not with that error.
\<close>

theorem decrypt_chunks_are_whole_blocks:
  assumes "length content = 48 + 16 * n" and "0 < n"
    and "st0 = decrypt_start \<lparr>f_content = content, f_pos = 16\<rparr> fout (take 16 content) (int (16 * n))"
    and "decrypt_reaches kb ks st0 st" and "d_remaining st > 0"
    and "toread = chunk_size (d_remaining st)"
    and "r = length (fst (fread toread (d_fin st)))"
  shows "cbc_decrypt_stream kb \<lparr>f_content = content, f_pos = pos0\<rparr> fout ks =
           (case decrypt_loop kb ks st0 of
              None \<Rightarrow> None
            | Some st' \<Rightarrow>
                if d_err st' \<noteq> None
                then Some \<lparr>dec_err = d_err st', dec_auth_ok = False, dec_out = d_fout st'\<rparr>
                else Some \<lparr>dec_err = None,
                          dec_auth_ok = (take 32 (sha256_final (d_hctx st')) = drop (16 + 16 * n) content),
                          dec_out = d_fout st'\<rparr>) \<and>
         r = toread \<and> 0 < r \<and> r mod BLOCK_SIZE = 0 \<and> BLOCK_SIZE \<le> r \<and>
         d_err (decrypt_body kb ks st) \<noteq> Some ShortLastChunk \<and>
         d_err (decrypt_body kb ks st) \<noteq> Some IOError \<and>
         (\<exists>res. cbc_decrypt_stream kb \<lparr>f_content = content, f_pos = pos0\<rparr> fout ks = Some res \<and>
            dec_err res \<noteq> Some ShortLastChunk \<and> dec_err res \<noteq> Some IOError)"
  by (intro conjI) (rule decrypt_pass_chunk[OF assms])+

theorem decrypt_chunks_are_whole_blocks_witness:
  "\<exists>st0. st0 = decrypt_start \<lparr>f_content = replicate 64 0, f_pos = 16\<rparr> [] (take 16 (replicate 64 0)) (int (16 * 1)) \<and>
     decrypt_reaches kboxinit (replicate 64 0) st0 st0 \<and> d_remaining st0 > 0 \<and>
     chunk_size (d_remaining st0) = 16 \<and>
     length (fst (fread (chunk_size (d_remaining st0)) (d_fin st0))) = 16 \<and>
     d_err (decrypt_body kboxinit (replicate 64 0) st0) \<noteq> Some ShortLastChunk"
proof -
  define st0 where
    "st0 = decrypt_start \<lparr>f_content = replicate 64 0, f_pos = 16\<rparr> [] (take 16 (replicate 64 (0 :: byte))) (int (16 * 1))"
  have h1: "length (replicate 64 (0 :: byte)) = 48 + 16 * 1" by simp
  have h2: "(0 :: nat) < 1" by simp
  have h4: "decrypt_reaches kboxinit (replicate 64 0) st0 st0" by (rule decrypt_reaches.start)
  have h5: "d_remaining st0 > 0" by (simp add: st0_def decrypt_start_def)
  have c: "chunk_size (d_remaining st0) = 16"
    by (simp add: st0_def decrypt_start_def chunk_size_def READ_CHUNK_def BLOCK_SIZE_def)
  from decrypt_chunks_are_whole_blocks[OF h1 h2 st0_def h4 h5 refl refl, of 0]
  have "length (fst (fread (chunk_size (d_remaining st0)) (d_fin st0))) = chunk_size (d_remaining st0)"
    and "d_err (decrypt_body kboxinit (replicate 64 0) st0) \<noteq> Some ShortLastChunk"
    by blast+
  with c h4 h5 st0_def show ?thesis by simp
qed

section \<open>The remainders of the encryption loop\<close>

text \<open>
  The loop of \<open>cbc_encrypt_stream\<close> on a whole file: it leaves with \<open>r\<close> the length of
  the file modulo \<open>READ_CHUNK\<close> and with these last bytes of the file at the start of
  \<open>inbuf\<close>.
\<close>

lemma encrypt_loop_tail:
  assumes "length iv = 16"
  shows "\<exists>st. encrypt_loop kb ks (encrypt_start \<lparr>f_content = p, f_pos = 0\<rparr> fout iv)
                = (length p mod READ_CHUNK, st) \<and>
              e_err st = None \<and>
              take (length p mod READ_CHUNK) (e_inbuf st) = drop (READ_CHUNK * (length p div READ_CHUNK)) p"
proof -
  let ?st = "encrypt_start \<lparr>f_content = p, f_pos = 0\<rparr> fout iv"
  have a: "length (e_prev ?st) = 16" using assms by (simp add: encrypt_start_def buf_load_def BLOCK_SIZE_def)
  have b: "e_err ?st = None" by (simp add: encrypt_start_def)
  have c: "p = drop (f_pos (e_fin ?st)) (f_content (e_fin ?st))" by (simp add: encrypt_start_def)
  from encrypt_loop_spec[OF a b c refl, of kb ks] show ?thesis by blast
qed

lemma pkcs7_pad_total:
  assumes "used < READ_CHUNK"
  shows "pkcs7_pad buf used (READ_CHUNK + BLOCK_SIZE) =
           (buf_store buf used (replicate (16 - used mod 16) (of_nat (16 - used mod 16))),
            whole_blocks used + BLOCK_SIZE)"
proof -
  have e: "used + (16 - used mod 16) = used div 16 * 16 + 16" by presburger
  have "used mod 16 \<le> used" by (rule mod_less_eq_dividend)
  then have "used div 16 * 16 + 16 \<le> READ_CHUNK + 16" using assms e by linarith
  then have c: "\<not> used div 16 * 16 + 16 > READ_CHUNK + 16" by simp
  show ?thesis
    unfolding pkcs7_pad_def whole_blocks_def BLOCK_SIZE_def Let_def e
    by (simp only: c if_False)
qed

text \<open>
  C9, as the code has it: in every pass of the reading loop the number \<open>rem\<close> of bytes
  carried over is \<open>READ_CHUNK - whole_blocks READ_CHUNK = 0\<close>, since the loop runs only
  on chunks of \<open>READ_CHUNK\<close> bytes. The final remainder \<open>tail\<close>, to which \<open>pkcs7_pad\<close> is
  applied, is the length of the plaintext modulo \<open>READ_CHUNK\<close>: 0 to 65535 bytes, of
  which only the part after the last whole block is 0 to 15 bytes. With the padding it
  is a positive multiple of 16, so the cipher works on whole blocks only.
\<close>

theorem encrypt_remainders:
  assumes "length iv = 16"
  shows "READ_CHUNK - whole_blocks READ_CHUNK = 0 \<and>
         (\<exists>st buf.
            encrypt_loop kb ks (encrypt_start \<lparr>f_content = p, f_pos = 0\<rparr> fout iv)
              = (length p mod READ_CHUNK, st) \<and>
            e_err st = None \<and>
            take (length p mod READ_CHUNK) (e_inbuf st) = drop (READ_CHUNK * (length p div READ_CHUNK)) p \<and>
            pkcs7_pad (e_inbuf st) (length p mod READ_CHUNK) (READ_CHUNK + BLOCK_SIZE)
              = (buf, whole_blocks (length p mod READ_CHUNK) + BLOCK_SIZE)) \<and>
         length p mod READ_CHUNK < READ_CHUNK \<and>
         length p mod READ_CHUNK - whole_blocks (length p mod READ_CHUNK) = length p mod 16 \<and>
         length p mod 16 \<le> 15 \<and>
         0 < whole_blocks (length p mod READ_CHUNK) + BLOCK_SIZE \<and>
         (whole_blocks (length p mod READ_CHUNK) + BLOCK_SIZE) mod BLOCK_SIZE = 0"
proof -
  have lt: "length p mod READ_CHUNK < READ_CHUNK" by (simp add: READ_CHUNK_def)
  from encrypt_loop_tail[OF assms, of kb ks p fout] obtain st where
    st: "encrypt_loop kb ks (encrypt_start \<lparr>f_content = p, f_pos = 0\<rparr> fout iv)
                = (length p mod READ_CHUNK, st)"
      "e_err st = None"
      "take (length p mod READ_CHUNK) (e_inbuf st) = drop (READ_CHUNK * (length p div READ_CHUNK)) p"
    by blast
  have ex: "\<exists>st buf.
            encrypt_loop kb ks (encrypt_start \<lparr>f_content = p, f_pos = 0\<rparr> fout iv)
              = (length p mod READ_CHUNK, st) \<and>
            e_err st = None \<and>
            take (length p mod READ_CHUNK) (e_inbuf st) = drop (READ_CHUNK * (length p div READ_CHUNK)) p \<and>
            pkcs7_pad (e_inbuf st) (length p mod READ_CHUNK) (READ_CHUNK + BLOCK_SIZE)
              = (buf, whole_blocks (length p mod READ_CHUNK) + BLOCK_SIZE)"
    using st pkcs7_pad_total[OF lt, of "e_inbuf st"] by blast
  have "(16 :: nat) dvd READ_CHUNK" by (simp add: READ_CHUNK_def)
  then have mm: "length p mod READ_CHUNK mod 16 = length p mod 16" by (rule mod_mod_cancel)
  have "y - y div 16 * 16 = y mod 16" for y :: nat by (simp add: minus_div_mult_eq_mod)
  then have m: "length p mod READ_CHUNK - whole_blocks (length p mod READ_CHUNK) = length p mod 16"
    unfolding whole_blocks_def BLOCK_SIZE_def mm[symmetric] by simp
  have z: "READ_CHUNK - whole_blocks READ_CHUNK = 0" by (simp add: whole_blocks_READ_CHUNK)
  have w: "(whole_blocks (length p mod READ_CHUNK) + BLOCK_SIZE) mod BLOCK_SIZE = 0"
    by (simp add: whole_blocks_def BLOCK_SIZE_def)
  have q: "0 < whole_blocks (length p mod READ_CHUNK) + BLOCK_SIZE" by (simp add: BLOCK_SIZE_def)
  have f: "length p mod 16 \<le> 15" by presburger
  from z ex lt m f q w show ?thesis by blast
qed

theorem encrypt_remainders_witness:
  "length (replicate 16 (0 :: byte)) = 16 \<and>
   (\<exists>st buf.
      encrypt_loop kboxinit (replicate 64 0)
          (encrypt_start \<lparr>f_content = replicate 100 7, f_pos = 0\<rparr> [] (replicate 16 0))
        = (100, st) \<and>
      pkcs7_pad (e_inbuf st) 100 (READ_CHUNK + BLOCK_SIZE) = (buf, 112))"
proof -
  have h: "length (replicate 16 (0 :: byte)) = 16" by simp
  have a: "length (replicate 100 (7 :: byte)) mod READ_CHUNK = 100" by (simp add: READ_CHUNK_def)
  have b: "whole_blocks 100 + BLOCK_SIZE = 112" by (simp add: whole_blocks_def BLOCK_SIZE_def)
  from encrypt_remainders[OF h, of kboxinit "replicate 64 0" "replicate 100 7" "[]"]
  have "\<exists>st buf.
      encrypt_loop kboxinit (replicate 64 0)
          (encrypt_start \<lparr>f_content = replicate 100 7, f_pos = 0\<rparr> [] (replicate 16 0))
        = (100, st) \<and>
      pkcs7_pad (e_inbuf st) 100 (READ_CHUNK + BLOCK_SIZE) = (buf, 112)"
    unfolding a b by blast
  with h show ?thesis by blast
qed

text \<open>
  A plaintext of 16 bytes: the loop is left at the first read, and the final remainder
  given to \<open>pkcs7_pad\<close> is these 16 bytes, not 0 to 15 bytes.
\<close>

theorem final_remainder_of_16_bytes:
  "\<exists>st. encrypt_loop kboxinit (replicate 64 0)
            (encrypt_start \<lparr>f_content = replicate 16 0, f_pos = 0\<rparr> [] (replicate 16 0))
          = (16, st) \<and>
        e_err st = None \<and> take 16 (e_inbuf st) = replicate 16 0 \<and>
        \<not> fst (encrypt_loop kboxinit (replicate 64 0)
                  (encrypt_start \<lparr>f_content = replicate 16 0, f_pos = 0\<rparr> [] (replicate 16 0))) \<le> 15"
proof -
  have h: "length (replicate 16 (0 :: byte)) = 16" by simp
  have a: "length (replicate 16 (0 :: byte)) mod READ_CHUNK = 16"
    "length (replicate 16 (0 :: byte)) div READ_CHUNK = 0" by (simp_all add: READ_CHUNK_def)
  from encrypt_loop_tail[OF h, of kboxinit "replicate 64 0" "replicate 16 0" "[]"]
  obtain st where st: "encrypt_loop kboxinit (replicate 64 0)
            (encrypt_start \<lparr>f_content = replicate 16 0, f_pos = 0\<rparr> [] (replicate 16 0)) = (16, st)"
    "e_err st = None" "take 16 (e_inbuf st) = replicate 16 0"
    unfolding a by auto
  then show ?thesis by simp
qed

section \<open>The password and the key schedule at the end of a run\<close>

text \<open>\<open>cbc_decrypt_stream\<close> returns on every file.\<close>

lemma cbc_decrypt_stream_total:
  "\<exists>r. cbc_decrypt_stream kb \<lparr>f_content = content, f_pos = pos0\<rparr> fout ks = Some r"
proof -
  let ?fin = "\<lparr>f_content = content, f_pos = pos0\<rparr>"
  consider (small) "length content < 48"
    | (bad) "48 \<le> length content" "length content = 48 \<or> (length content - 48) mod 16 \<noteq> 0"
    | (good) n where "length content = 48 + 16 * n" "0 < n"
  proof -
    have "\<exists>n. length content = 48 + 16 * n \<and> 0 < n"
      if "48 \<le> length content" "length content \<noteq> 48" "(length content - 48) mod 16 = 0"
    proof -
      from that(3) obtain n where "length content - 48 = 16 * n" by (auto simp: mod_eq_0_iff_dvd elim: dvdE)
      with that(1,2) have "length content = 48 + 16 * n \<and> 0 < n" by auto
      then show ?thesis by blast
    qed
    then show ?thesis using small bad good by (cases "length content < 48") auto
  qed
  then show ?thesis
  proof cases
    case small
    then have "ftell (fseek_end ?fin) < int (BLOCK_SIZE + 32)"
      by (simp add: ftell_def fseek_end_def BLOCK_SIZE_def)
    then show ?thesis by (simp add: cbc_decrypt_stream_def Let_def)
  next
    case bad
    define fin1 where "fin1 = fseek_end ?fin"
    have fsz: "ftell fin1 = int (length content)" by (simp add: fin1_def fseek_end_def ftell_def)
    have c1: "f_content fin1 = content" by (simp add: fin1_def fseek_end_def)
    define iv where "iv = take 16 content"
    define fin3 where "fin3 = snd (fread BLOCK_SIZE (fseek_set 0 fin1))"
    have rd1: "fread BLOCK_SIZE (fseek_set 0 fin1) = (iv, fin3)"
      unfolding fin3_def by (simp add: fread_spec fseek_set_def c1 iv_def BLOCK_SIZE_def)
    have c3: "f_content fin3 = content"
      by (simp add: fin3_def fread_spec fseek_set_def c1)
    have liv: "length iv = BLOCK_SIZE" using bad(1) by (simp add: iv_def BLOCK_SIZE_def)
    define H where "H = take 32 (drop (length content - 32) content)"
    define fin4 where "fin4 = snd (fread 32 (fseek_set (nat (int (length content) - 32)) fin3))"
    have pl: "nat (int (length content) - 32) = length content - 32" using bad(1) by simp
    have rd2: "fread 32 (fseek_set (nat (int (length content) - 32)) fin3) = (H, fin4)"
      unfolding fin4_def pl by (simp add: fread_spec fseek_set_def c3 H_def)
    have lH: "length H = 32" using bad(1) by (simp add: H_def)
    have small: "\<not> int (length content) < int (BLOCK_SIZE + 32)"
      using bad(1) by (simp add: BLOCK_SIZE_def)
    have rem: "int (length content) - 32 - int BLOCK_SIZE = int (length content - 48)"
      using bad(1) by (simp add: BLOCK_SIZE_def)
    have "int (length content - 48) mod 16 = int ((length content - 48) mod 16)"
      by (simp add: zmod_int)
    then have ok: "int (length content - 48) \<le> 0 \<or> int (length content - 48) mod int BLOCK_SIZE \<noteq> 0"
      using bad by (auto simp: BLOCK_SIZE_def)
    show ?thesis
      unfolding cbc_decrypt_stream_def fin1_def[symmetric] Let_def fsz
      apply (simp only: small if_False rd1 prod.case liv simp_thms rd2 lH rem)
      apply (simp only: ok if_True)
      apply blast
      done
  next
    case good
    from cbc_decrypt_stream_spec[where kb = kb and ks = ks and ?pos0.0 = pos0 and fout = fout,
        OF good refl refl refl refl]
    show ?thesis by simp
  qed
qed

text \<open>The runs of \<open>main\<close> that have asked for the password: an encryption, a decryption.\<close>

lemma main_encrypt:
  assumes "length argv = 3" "argv ! 1 = ''c''"
    and d: "derive_gost_subkeys_from_password typed keyhash_static = Some (ks, g)"
  shows "main argv (Some content) True typed iv =
           Some \<lparr>exit_code = (if enc_err (cbc_encrypt_stream kboxinit \<lparr>f_content = content, f_pos = 0\<rparr> [] ks iv) \<noteq> None then 2 else 0),
                 output_file = (if enc_err (cbc_encrypt_stream kboxinit \<lparr>f_content = content, f_pos = 0\<rparr> [] ks iv) \<noteq> None then None
                                else Some (enc_out (cbc_encrypt_stream kboxinit \<lparr>f_content = content, f_pos = 0\<rparr> [] ks iv))),
                 auth_report = None, password_cell = Zeroed, subkeys_cell = Holds ks\<rparr>"
proof -
  define res where "res = cbc_encrypt_stream kboxinit \<lparr>f_content = content, f_pos = 0\<rparr> [] ks iv"
  have m: "\<not> (\<not> argv ! 1 = ''c'' \<and> \<not> (argv ! 1 \<noteq> ''c'' \<and> argv ! 1 = ''d''))"
    using assms(2) by blast
  have "main argv (Some content) True typed iv =
      (if enc_err res \<noteq> None
       then Some \<lparr>exit_code = 2, output_file = None, auth_report = None,
                  password_cell = Zeroed, subkeys_cell = Holds ks\<rparr>
       else Some \<lparr>exit_code = 0, output_file = Some (enc_out res), auth_report = None,
                  password_cell = Zeroed, subkeys_cell = Holds ks\<rparr>)"
    unfolding main_def Let_def res_def[symmetric]
    apply (simp only: assms(1) m if_False simp_thms option.case d prod.case)
    apply (simp only: assms(2) if_True simp_thms res_def)
    done
  then show ?thesis unfolding res_def by simp
qed

lemma main_decrypt:
  assumes "length argv = 3" "argv ! 1 = ''d''"
    and d: "derive_gost_subkeys_from_password typed keyhash_static = Some (ks, g)"
    and dec: "cbc_decrypt_stream kboxinit \<lparr>f_content = content, f_pos = 0\<rparr> [] ks = Some res"
  shows "main argv (Some content) True typed iv =
           Some \<lparr>exit_code = (if dec_err res \<noteq> None then 2 else 0),
                 output_file = (if dec_err res \<noteq> None then None else Some (dec_out res)),
                 auth_report = (if dec_err res \<noteq> None then None else Some (dec_auth_ok res)),
                 password_cell = Zeroed, subkeys_cell = Holds ks\<rparr>"
proof -
  have nc: "argv ! 1 \<noteq> ''c''" using assms(2) by simp
  have m: "\<not> (\<not> argv ! 1 = ''c'' \<and> \<not> (argv ! 1 \<noteq> ''c'' \<and> argv ! 1 = ''d''))"
    using assms(2) by simp
  have "main argv (Some content) True typed iv =
      (if dec_err res \<noteq> None
       then Some \<lparr>exit_code = 2, output_file = None, auth_report = None,
                  password_cell = Zeroed, subkeys_cell = Holds ks\<rparr>
       else Some \<lparr>exit_code = 0, output_file = Some (dec_out res), auth_report = Some (dec_auth_ok res),
                  password_cell = Zeroed, subkeys_cell = Holds ks\<rparr>)"
    unfolding main_def Let_def
    apply (simp only: assms(1) m if_False simp_thms option.case d prod.case)
    apply (simp only: nc if_False simp_thms dec option.case)
    done
  then show ?thesis by simp
qed

section \<open>The password prompt\<close>

lemma getch_loop_length:
  "getch_loop buf n idx keys = Returned b \<or> getch_loop buf n idx keys = Exited b \<Longrightarrow>
   length b = length buf"
proof (induction keys arbitrary: buf idx)
  case Nil
  then show ?case by auto
next
  case (Cons ch keys)
  show ?case
  proof (cases "ch = 13 \<or> ch = 10 \<or> ch = - 1")
    case True
    with Cons.prems show ?thesis by auto
  next
    case nt: False
    show ?thesis
    proof (cases "ch = 3")
      case True
      with nt Cons.prems show ?thesis by auto
    next
      case n3: False
      show ?thesis
      proof (cases "ch = 8")
        case True
        with nt n3 Cons.prems
        have "getch_loop buf n (if idx > 0 then idx - 1 else idx) keys = Returned b
            \<or> getch_loop buf n (if idx > 0 then idx - 1 else idx) keys = Exited b"
          by simp
        then show ?thesis by (rule Cons.IH)
      next
        case n8: False
        show ?thesis
        proof (cases "idx + 1 < n")
          case True
          with nt n3 n8 Cons.prems
          have "getch_loop (buf[idx := of_int ch]) n (idx + 1) keys = Returned b
              \<or> getch_loop (buf[idx := of_int ch]) n (idx + 1) keys = Exited b"
            by simp
          from Cons.IH[OF this] show ?thesis by simp
        next
          case False
          with nt n3 n8 Cons.prems
          have "getch_loop buf n idx keys = Returned b \<or> getch_loop buf n idx keys = Exited b"
            by simp
          then show ?thesis by (rule Cons.IH)
        qed
      qed
    qed
  qed
qed

text \<open>The prompt ends the process exactly when Ctrl+C comes before the end of the line.\<close>

lemma getch_loop_exits:
  "(\<exists>b. getch_loop buf n idx keys = Exited b) \<longleftrightarrow>
   3 \<in> set (takeWhile (\<lambda>ch. ch \<noteq> 13 \<and> ch \<noteq> 10 \<and> ch \<noteq> - 1) keys)"
proof (induction keys arbitrary: buf idx)
  case Nil
  show ?case by simp
next
  case (Cons ch keys)
  show ?case
  proof (cases "ch = 13 \<or> ch = 10 \<or> ch = - 1")
    case True
    then show ?thesis by auto
  next
    case nt: False
    show ?thesis
    proof (cases "ch = 3")
      case True
      with nt show ?thesis by simp
    next
      case n3: False
      show ?thesis
      proof (cases "ch = 8")
        case True
        with nt n3 Cons.IH[of buf "if idx > 0 then idx - 1 else idx"] show ?thesis by simp
      next
        case n8: False
        show ?thesis
        proof (cases "idx + 1 < n")
          case True
          with nt n3 n8 Cons.IH[of "buf[idx := of_int ch]" "idx + 1"] show ?thesis by simp
        next
          case False
          with nt n3 n8 Cons.IH[of buf idx] show ?thesis by simp
        qed
      qed
    qed
  qed
qed

lemma fgets_length: "fgets n inp = Some s \<Longrightarrow> length s \<le> n - 1"
  by (auto simp: fgets_def Let_def split: if_splits)

lemma prompt_posix_length:
  assumes "length buf = 256"
  shows "length (prompt_posix buf 256 inp) = 256"
proof -
  define buf1 where "buf1 = (case fgets 256 inp of
                    None \<Rightarrow> buf[0 := 0]
                  | Some s \<Rightarrow> buf_store buf 0 (s @ [0]))"
  have "length buf1 = 256"
  proof (cases "fgets 256 inp")
    case None
    then show ?thesis using assms by (simp add: buf1_def)
  next
    case (Some s)
    from fgets_length[OF this] have "length s \<le> 255" by simp
    then show ?thesis using assms Some by (simp add: buf1_def buf_store_def)
  qed
  then show ?thesis
    unfolding prompt_posix_def Let_def buf1_def[symmetric] by simp
qed

lemma prompt_password_length:
  assumes "length buf = 256"
    and "prompt_password con buf 256 = Returned b \<or> prompt_password con buf 256 = Exited b"
  shows "length b = 256"
proof (cases con)
  case (Win32 keys)
  with assms(2) have "getch_loop buf 256 0 keys = Returned b \<or> getch_loop buf 256 0 keys = Exited b"
    by (simp add: prompt_password_def)
  from getch_loop_length[OF this] assms(1) show ?thesis by simp
next
  case (Posix inp)
  with assms(2) have "b = prompt_posix buf 256 inp" by (simp add: prompt_password_def)
  then show ?thesis using prompt_posix_length[OF assms(1)] by simp
qed

lemma prompt_password_exits:
  "(\<exists>b. prompt_password con buf n = Exited b) \<longleftrightarrow>
   (\<exists>keys. con = Win32 keys \<and> 3 \<in> set (takeWhile (\<lambda>ch. ch \<noteq> 13 \<and> ch \<noteq> 10 \<and> ch \<noteq> - 1) keys))"
proof (cases con)
  case (Win32 keys)
  then show ?thesis using getch_loop_exits[of buf n 0 keys] by (simp add: prompt_password_def)
next
  case (Posix inp)
  then show ?thesis by (simp add: prompt_password_def)
qed

lemma memset_whole: "length s = n \<Longrightarrow> memset s c n = replicate n c"
  by (simp add: memset_def)

section \<open>The secret buffers in the runs of \<open>main\<close>\<close>

text \<open>A run of \<open>main\<close> that has asked for the password ends with 0 or with 2.\<close>

lemma main_returns:
  assumes l: "length argv = 3" and m: "argv ! 1 = ''c'' \<or> argv ! 1 = ''d''"
  shows "\<exists>r. main argv (Some content) True typed iv = Some r \<and> (exit_code r = 0 \<or> exit_code r = 2)"
proof -
  obtain g where d: "derive_gost_subkeys_from_password typed keyhash_static
      = Some (derived_subkeys typed, g)"
    using derived_subkeys_Some by blast
  obtain res where dec: "cbc_decrypt_stream kboxinit \<lparr>f_content = content, f_pos = 0\<rparr> [] (derived_subkeys typed) = Some res"
    using cbc_decrypt_stream_total by blast
  show ?thesis
  proof (cases "argv ! 1 = ''c''")
    case c: True
    show ?thesis unfolding main_encrypt[OF l c d] by simp
  next
    case c: False
    with m have dd: "argv ! 1 = ''d''" by simp
    show ?thesis unfolding main_decrypt[OF l dd d dec] by simp
  qed
qed

lemma main_memory_early:
  assumes "\<not> (length argv = 3 \<and> (argv ! 1 = ''c'' \<or> argv ! 1 = ''d'') \<and> input \<noteq> None \<and> output_ok)"
  shows "main_memory con argv input output_ok m0 iv = Some (1, [])"
  using assms unfolding main_memory_def by auto

lemma main_memory_exited:
  assumes "length argv = 3" "argv ! 1 = ''c'' \<or> argv ! 1 = ''d''" "input \<noteq> None" "output_ok"
    and "prompt_password con (m_password m0) 256 = Exited buf"
  shows "main_memory con argv input output_ok m0 iv
           = Some (1, [(Call_prompt_password, \<lparr>m_password = buf, m_subkeys = m_subkeys m0\<rparr>)])"
proof -
  have c: "\<not> (argv ! 1 \<noteq> ''c'' \<and> argv ! 1 \<noteq> ''d'')" using assms(2) by blast
  have m: "m0\<lparr>m_password := buf\<rparr> = \<lparr>m_password = buf, m_subkeys = m_subkeys m0\<rparr>" by simp
  show ?thesis
    unfolding main_memory_def
    by (simp only: assms(1,3,4,5) c m simp_thms if_False prompt_end.case)
qed

lemma main_memory_returned:
  assumes "length argv = 3" "argv ! 1 = ''c'' \<or> argv ! 1 = ''d''" "input \<noteq> None" "output_ok"
    and pr: "prompt_password con (m_password m0) 256 = Returned buf"
    and len: "length (m_password m0) = 256"
  shows "\<exists>r. main argv input output_ok (c_string buf) iv = Some r \<and>
           main_memory con argv input output_ok m0 iv
           = Some (exit_code r,
               [(Call_prompt_password, \<lparr>m_password = buf, m_subkeys = m_subkeys m0\<rparr>),
                (Call_derive, \<lparr>m_password = buf, m_subkeys = derived_subkeys (c_string buf)\<rparr>),
                (Call_memset Password,
                 \<lparr>m_password = replicate 256 0, m_subkeys = derived_subkeys (c_string buf)\<rparr>),
                (if argv ! 1 = ''c'' then Call_cbc_encrypt else Call_cbc_decrypt,
                 \<lparr>m_password = replicate 256 0, m_subkeys = derived_subkeys (c_string buf)\<rparr>)])
         \<and> (exit_code r = 0 \<or> exit_code r = 2)"
proof -
  have c: "\<not> (argv ! 1 \<noteq> ''c'' \<and> argv ! 1 \<noteq> ''d'')" using assms(2) by blast
  obtain content where inp: "input = Some content" using assms(3) by auto
  have ok: "output_ok = True" using assms(4) by simp
  obtain g where d: "derive_gost_subkeys_from_password (c_string buf) keyhash_static
      = Some (derived_subkeys (c_string buf), g)"
    using derived_subkeys_Some by blast
  from main_returns[OF assms(1,2), of content "c_string buf" iv] obtain r where
    r: "main argv (Some content) True (c_string buf) iv = Some r" "exit_code r = 0 \<or> exit_code r = 2"
    by blast
  have lb: "length buf = 256" using prompt_password_length[OF len] pr by blast
  have ms: "memset buf 0 256 = replicate 256 0" using lb by (rule memset_whole)
  have "main_memory con argv input output_ok m0 iv
           = Some (exit_code r,
               [(Call_prompt_password, \<lparr>m_password = buf, m_subkeys = m_subkeys m0\<rparr>),
                (Call_derive, \<lparr>m_password = buf, m_subkeys = derived_subkeys (c_string buf)\<rparr>),
                (Call_memset Password,
                 \<lparr>m_password = replicate 256 0, m_subkeys = derived_subkeys (c_string buf)\<rparr>),
                (if argv ! 1 = ''c'' then Call_cbc_encrypt else Call_cbc_decrypt,
                 \<lparr>m_password = replicate 256 0, m_subkeys = derived_subkeys (c_string buf)\<rparr>)])"
    unfolding main_memory_def Let_def inp ok
    apply (simp only: assms(1) c simp_thms if_False pr prompt_end.case option.distinct)
    apply (simp add: d r(1) ms)
    done
  with r show ?thesis unfolding inp ok by blast
qed

text \<open>
  C8, as the code has it: every run of \<open>main\<close> ends. A run that ends before the password
  prompt (wrong arguments, a file that cannot be opened) ends with 1 and has made no
  call with the password buffer or the key schedule. In the \<open>_WIN32\<close> build a Ctrl+C at
  the prompt, and nothing else, ends the process inside \<open>prompt_password\<close> with \<open>exit(1)\<close>:
  the password buffer then holds what has been typed and is not overwritten. In every other
  run \<open>prompt_password\<close> returns, and the calls with the two buffers are, in this order:
  the prompt; the key derivation, which stores the 64 subkeys; \<open>memset\<close>, after which all
  256 bytes of the password buffer are 0; and the encryption or the decryption. The run
  ends with 0 or with 2, and at its end the password buffer is 256 zero bytes and the key
  schedule still holds the 64 subkeys as derived: nothing overwrites them.
\<close>

theorem password_zeroed_key_schedule_kept:
  assumes "length (m_password m0) = 256"
  shows "\<exists>st tr. main_memory con argv input output_ok m0 iv = Some (st, tr) \<and>
     (if length argv = 3 \<and> (argv ! 1 = ''c'' \<or> argv ! 1 = ''d'') \<and> input \<noteq> None \<and> output_ok
      then (case prompt_password con (m_password m0) 256 of
              Exited buf \<Rightarrow>
                st = 1 \<and>
                tr = [(Call_prompt_password, \<lparr>m_password = buf, m_subkeys = m_subkeys m0\<rparr>)]
            | Returned buf \<Rightarrow>
                (st = 0 \<or> st = 2) \<and>
                tr = [(Call_prompt_password, \<lparr>m_password = buf, m_subkeys = m_subkeys m0\<rparr>),
                      (Call_derive, \<lparr>m_password = buf, m_subkeys = derived_subkeys (c_string buf)\<rparr>),
                      (Call_memset Password,
                       \<lparr>m_password = replicate 256 0, m_subkeys = derived_subkeys (c_string buf)\<rparr>),
                      (if argv ! 1 = ''c'' then Call_cbc_encrypt else Call_cbc_decrypt,
                       \<lparr>m_password = replicate 256 0, m_subkeys = derived_subkeys (c_string buf)\<rparr>)])
      else st = 1 \<and> tr = []) \<and>
     Call_memset Subkeys \<notin> set (map fst tr) \<and>
     ((\<exists>buf. prompt_password con (m_password m0) 256 = Exited buf) \<longleftrightarrow>
      (\<exists>keys. con = Win32 keys \<and>
              3 \<in> set (takeWhile (\<lambda>ch. ch \<noteq> 13 \<and> ch \<noteq> 10 \<and> ch \<noteq> - 1) keys)))"
proof -
  let ?reached = "length argv = 3 \<and> (argv ! 1 = ''c'' \<or> argv ! 1 = ''d'') \<and> input \<noteq> None \<and> output_ok"
  have ex: "(\<exists>buf. prompt_password con (m_password m0) 256 = Exited buf) \<longleftrightarrow>
      (\<exists>keys. con = Win32 keys \<and>
              3 \<in> set (takeWhile (\<lambda>ch. ch \<noteq> 13 \<and> ch \<noteq> 10 \<and> ch \<noteq> - 1) keys))"
    by (rule prompt_password_exits)
  have "\<exists>st tr. main_memory con argv input output_ok m0 iv = Some (st, tr) \<and>
     (if ?reached
      then (case prompt_password con (m_password m0) 256 of
              Exited buf \<Rightarrow>
                st = 1 \<and>
                tr = [(Call_prompt_password, \<lparr>m_password = buf, m_subkeys = m_subkeys m0\<rparr>)]
            | Returned buf \<Rightarrow>
                (st = 0 \<or> st = 2) \<and>
                tr = [(Call_prompt_password, \<lparr>m_password = buf, m_subkeys = m_subkeys m0\<rparr>),
                      (Call_derive, \<lparr>m_password = buf, m_subkeys = derived_subkeys (c_string buf)\<rparr>),
                      (Call_memset Password,
                       \<lparr>m_password = replicate 256 0, m_subkeys = derived_subkeys (c_string buf)\<rparr>),
                      (if argv ! 1 = ''c'' then Call_cbc_encrypt else Call_cbc_decrypt,
                       \<lparr>m_password = replicate 256 0, m_subkeys = derived_subkeys (c_string buf)\<rparr>)])
      else st = 1 \<and> tr = []) \<and>
     Call_memset Subkeys \<notin> set (map fst tr)"
  proof (cases ?reached)
    case False
    have t: "?reached = False" using False by simp
    show ?thesis unfolding t if_False main_memory_early[OF False] by simp
  next
    case True
    have t: "?reached = True" using True by simp
    from True have a: "length argv = 3" "argv ! 1 = ''c'' \<or> argv ! 1 = ''d''" "input \<noteq> None" "output_ok"
      by simp_all
    show ?thesis
    proof (cases "prompt_password con (m_password m0) 256")
      case (Exited buf)
      show ?thesis
        unfolding t if_True Exited prompt_end.case main_memory_exited[OF a Exited] by simp
    next
      case (Returned buf)
      from main_memory_returned[OF a Returned assms, of iv] obtain r :: main_result where
        "main_memory con argv input output_ok m0 iv
           = Some (exit_code r,
               [(Call_prompt_password, \<lparr>m_password = buf, m_subkeys = m_subkeys m0\<rparr>),
                (Call_derive, \<lparr>m_password = buf, m_subkeys = derived_subkeys (c_string buf)\<rparr>),
                (Call_memset Password,
                 \<lparr>m_password = replicate 256 0, m_subkeys = derived_subkeys (c_string buf)\<rparr>),
                (if argv ! 1 = ''c'' then Call_cbc_encrypt else Call_cbc_decrypt,
                 \<lparr>m_password = replicate 256 0, m_subkeys = derived_subkeys (c_string buf)\<rparr>)])"
        "exit_code r = 0 \<or> exit_code r = 2"
        by blast
      then obtain st where
        st: "main_memory con argv input output_ok m0 iv
           = Some (st,
               [(Call_prompt_password, \<lparr>m_password = buf, m_subkeys = m_subkeys m0\<rparr>),
                (Call_derive, \<lparr>m_password = buf, m_subkeys = derived_subkeys (c_string buf)\<rparr>),
                (Call_memset Password,
                 \<lparr>m_password = replicate 256 0, m_subkeys = derived_subkeys (c_string buf)\<rparr>),
                (if argv ! 1 = ''c'' then Call_cbc_encrypt else Call_cbc_decrypt,
                 \<lparr>m_password = replicate 256 0, m_subkeys = derived_subkeys (c_string buf)\<rparr>)])"
        and s: "st = 0 \<or> st = 2"
        by blast
      show ?thesis
        unfolding t if_True Returned prompt_end.case st using s by auto
    qed
  qed
  with ex show ?thesis by blast
qed

theorem password_zeroed_key_schedule_kept_witness:
  "length (m_password \<lparr>m_password = replicate 256 1, m_subkeys = replicate 64 0\<rparr>) = 256 \<and>
   (\<exists>st tr. main_memory (Posix [97, 98, 99, 10]) [''gost2file'', ''d'', ''f''] (Some []) True
               \<lparr>m_password = replicate 256 1, m_subkeys = replicate 64 0\<rparr> [] = Some (st, tr) \<and>
             (st = 0 \<or> st = 2) \<and> length tr = 4 \<and>
             m_password (snd (tr ! 2)) = replicate 256 0 \<and>
             m_password (snd (tr ! 3)) = replicate 256 0 \<and>
             m_subkeys (snd (tr ! 3)) = m_subkeys (snd (tr ! 1)))"
proof -
  let ?m0 = "\<lparr>m_password = replicate 256 (1 :: byte), m_subkeys = replicate 64 (0 :: word64)\<rparr>"
  have h: "length (m_password ?m0) = 256" by simp
  obtain buf where p: "prompt_password (Posix [97, 98, 99, 10]) (m_password ?m0) 256 = Returned buf"
    by (simp add: prompt_password_def)
  from password_zeroed_key_schedule_kept[OF h, of "Posix [97, 98, 99, 10]" "[''gost2file'', ''d'', ''f'']" "Some []" True "[]"]
  obtain st tr where
    "main_memory (Posix [97, 98, 99, 10]) [''gost2file'', ''d'', ''f''] (Some []) True ?m0 [] = Some (st, tr)"
    "(st = 0 \<or> st = 2) \<and>
       tr = [(Call_prompt_password, \<lparr>m_password = buf, m_subkeys = m_subkeys ?m0\<rparr>),
                      (Call_derive, \<lparr>m_password = buf, m_subkeys = derived_subkeys (c_string buf)\<rparr>),
                      (Call_memset Password,
                       \<lparr>m_password = replicate 256 0, m_subkeys = derived_subkeys (c_string buf)\<rparr>),
                      (Call_cbc_decrypt,
                       \<lparr>m_password = replicate 256 0, m_subkeys = derived_subkeys (c_string buf)\<rparr>)]"
    unfolding p by auto
  then show ?thesis using h by auto
qed

text \<open>
  Two runs. The \<open>_WIN32\<close> build, the key \<open>a\<close> and then Ctrl+C at the prompt: the process
  ends with 1 and the password buffer holds the \<open>a\<close>. The other build, an empty line as
  the password and the encryption of the empty file: the run ends with 0, the calls are the
  four of the source, none of them a \<open>memset\<close> of the key schedule, and at the end the key
  schedule holds the subkeys derived from the empty password.
\<close>

theorem key_schedule_not_zeroed:
  "main_memory (Win32 [97, 3]) [''gost2file'', ''c'', ''f''] (Some []) True
       \<lparr>m_password = replicate 256 0, m_subkeys = replicate 64 0\<rparr> (replicate 16 0)
     = Some (1, [(Call_prompt_password,
                  \<lparr>m_password = 97 # replicate 255 0, m_subkeys = replicate 64 0\<rparr>)]) \<and>
   (97 # replicate 255 0 :: byte list) \<noteq> replicate 256 0 \<and>
   (\<exists>tr. main_memory (Posix [10]) [''gost2file'', ''c'', ''f''] (Some []) True
            \<lparr>m_password = replicate 256 0, m_subkeys = replicate 64 0\<rparr> (replicate 16 0)
          = Some (0, tr) \<and>
          map fst tr = [Call_prompt_password, Call_derive, Call_memset Password, Call_cbc_encrypt] \<and>
          Call_memset Subkeys \<notin> set (map fst tr) \<and>
          m_subkeys (snd (last tr)) = derived_subkeys []) \<and>
   (\<exists>r. main [''gost2file'', ''c'', ''f''] (Some []) True [] (replicate 16 0) = Some r \<and>
       exit_code r = 0 \<and>
       subkeys_cell r = Holds (derived_subkeys []) \<and>
       subkeys_cell r \<noteq> Zeroed)"
proof -
  let ?m0 = "\<lparr>m_password = replicate 256 (0 :: byte), m_subkeys = replicate 64 (0 :: word64)\<rparr>"
  let ?argv = "[''gost2file'', ''c'', ''f'']"
  have a: "length ?argv = 3" "?argv ! 1 = ''c''" by simp_all
  have a': "?argv ! 1 = ''c'' \<or> ?argv ! 1 = ''d''" by simp
  have i: "Some ([] :: byte list) \<noteq> None" by simp
  have r256: "replicate 256 (0 :: byte) = 0 # replicate 255 0"
    by (simp add: replicate_Suc[symmetric] del: replicate_Suc)
  have w: "prompt_password (Win32 [97, 3]) (m_password ?m0) 256 = Exited (97 # replicate 255 0)"
    by (simp add: prompt_password_def r256)
  have one: "main_memory (Win32 [97, 3]) ?argv (Some []) True ?m0 (replicate 16 0)
     = Some (1, [(Call_prompt_password,
                  \<lparr>m_password = 97 # replicate 255 0, m_subkeys = replicate 64 0\<rparr>)])"
    using main_memory_exited[OF a(1) a' i TrueI w, of "replicate 16 0"] by simp
  have ne: "(97 # replicate 255 0 :: byte list) \<noteq> replicate 256 0"
    unfolding r256 by simp
  obtain g where d: "derive_gost_subkeys_from_password [] keyhash_static = Some (derived_subkeys [], g)"
    using derived_subkeys_Some by blast
  have iv: "length (replicate 16 (0 :: byte)) = 16" by simp
  have mr: "main ?argv (Some []) True [] (replicate 16 0)
      = Some \<lparr>exit_code = 0, output_file = Some (container kboxinit (derived_subkeys []) (replicate 16 0) []),
              auth_report = None, password_cell = Zeroed, subkeys_cell = Holds (derived_subkeys [])\<rparr>"
    unfolding main_encrypt[OF a d] cbc_encrypt_stream_spec[OF iv] by simp
  have fg: "fgets 256 [10] = Some [10]" by (simp add: fgets_def)
  have b1: "buf_store (replicate 256 (0 :: byte)) 0 ([10] @ [0]) = 10 # replicate 255 0"
    by (simp add: buf_store_def replicate_add[symmetric] del: replicate_Suc)
      (simp add: replicate_Suc[symmetric] del: replicate_Suc)
  have sl: "strlen (10 # replicate 255 (0 :: byte)) = 1"
    by (simp add: strlen_def takeWhile_replicate)
  have pp: "prompt_posix (replicate 256 0) 256 [10] = replicate 256 0"
    unfolding prompt_posix_def fg option.case b1 Let_def sl by (simp add: r256)
  have p: "prompt_password (Posix [10]) (m_password ?m0) 256 = Returned (replicate 256 0)"
    by (simp add: prompt_password_def pp)
  have cs: "c_string (replicate 256 (0 :: byte)) = []"
    by (simp add: c_string_def strlen_def takeWhile_replicate)
  have h: "length (m_password ?m0) = 256" by simp
  from main_memory_returned[OF a(1) a' i TrueI p h, of "replicate 16 0"] obtain r where
    r: "main ?argv (Some []) True (c_string (replicate 256 0)) (replicate 16 0) = Some r"
    and st: "main_memory (Posix [10]) ?argv (Some []) True ?m0 (replicate 16 0)
           = Some (exit_code r,
               [(Call_prompt_password, \<lparr>m_password = replicate 256 0, m_subkeys = m_subkeys ?m0\<rparr>),
                (Call_derive, \<lparr>m_password = replicate 256 0, m_subkeys = derived_subkeys (c_string (replicate 256 0))\<rparr>),
                (Call_memset Password, \<lparr>m_password = replicate 256 0, m_subkeys = derived_subkeys (c_string (replicate 256 0))\<rparr>),
                (if ?argv ! 1 = ''c'' then Call_cbc_encrypt else Call_cbc_decrypt,
                 \<lparr>m_password = replicate 256 0, m_subkeys = derived_subkeys (c_string (replicate 256 0))\<rparr>)])"
    by blast
  have st0: "exit_code r = 0" using r unfolding cs mr by auto
  have two: "\<exists>tr. main_memory (Posix [10]) ?argv (Some []) True ?m0 (replicate 16 0) = Some (0, tr) \<and>
          map fst tr = [Call_prompt_password, Call_derive, Call_memset Password, Call_cbc_encrypt] \<and>
          Call_memset Subkeys \<notin> set (map fst tr) \<and>
          m_subkeys (snd (last tr)) = derived_subkeys []"
    unfolding st st0 cs by simp
  have three: "\<exists>r. main ?argv (Some []) True [] (replicate 16 0) = Some r \<and>
       exit_code r = 0 \<and> subkeys_cell r = Holds (derived_subkeys []) \<and> subkeys_cell r \<noteq> Zeroed"
    unfolding mr by simp
  from one ne two three show ?thesis by blast
qed

section \<open>The steps of the key derivation\<close>

text \<open>
  C4, as the code has it: for every password the derivation returns, and it is exactly:
  one \<open>hashing\<close> of the password bytes from the initial state; then the padding of the
  \<open>n1 - x2\<close> bytes left of the 512-byte window, each of them the number \<open>n1 - x2\<close>
  stored in a byte, that is modulo 256, given to \<open>hashing\<close>; then the 512 bytes of the
  checksum array \<open>h2\<close> given to \<open>hashing\<close>; and the subkeys are the 64 consecutive
  8-byte big-endian unsigned integers of the first 512 bytes of \<open>h1\<close>, in order.
\<close>

theorem subkey_derivation_steps:
  "\<exists>g1 g2 g3.
     hashing (Mem password) (length password) (init_gost_keyhash keyhash_static) = Some g1
     \<and> x2 g1 < n1
     \<and> keyhash_pad g1 = replicate (n1 - x2 g1) (of_nat ((n1 - x2 g1) mod 256))
     \<and> hashing (Mem (keyhash_pad g1)) (length (keyhash_pad g1)) g1 = Some g2
     \<and> length (h2 g2) = n1
     \<and> hashing (Mem (h2 g2)) (length (h2 g2)) g2 = Some g3
     \<and> length (take n1 (h1 g3)) = n1
     \<and> derive_gost_subkeys_from_password password keyhash_static
         = Some (map (\<lambda>i. of_nat (spec_be_uint (take 8 (drop (8 * i) (take n1 (h1 g3)))))) [0..<64], g3)"
  using derive_steps[of password]
  unfolding keyhash_pad_spec spec_subkeys_def
  by (simp add: spec_pad_def)

theorem subkey_derivation_steps_witness:
  "\<exists>g1 g2 g3.
     hashing (Mem [1, 2, 3]) (length [1, 2, 3 :: byte]) (init_gost_keyhash keyhash_static) = Some g1
     \<and> x2 g1 < n1
     \<and> keyhash_pad g1 = replicate (n1 - x2 g1) (of_nat ((n1 - x2 g1) mod 256))
     \<and> hashing (Mem (keyhash_pad g1)) (length (keyhash_pad g1)) g1 = Some g2
     \<and> length (h2 g2) = n1
     \<and> hashing (Mem (h2 g2)) (length (h2 g2)) g2 = Some g3
     \<and> length (take n1 (h1 g3)) = n1
     \<and> derive_gost_subkeys_from_password [1, 2, 3] keyhash_static
         = Some (map (\<lambda>i. of_nat (spec_be_uint (take 8 (drop (8 * i) (take n1 (h1 g3)))))) [0..<64], g3)"
  by (rule subkey_derivation_steps[of "[1, 2, 3]"])

text \<open>
  The empty password: the whole window of 512 bytes is left, and the padding is 512
  bytes of value 0, since a byte holds 512 as 0; they are not equal to the length 512.
\<close>

theorem padding_of_empty_password:
  "\<exists>g1. hashing (Mem []) (length ([] :: byte list)) (init_gost_keyhash keyhash_static) = Some g1 \<and>
     n1 - x2 g1 = 512 \<and>
     keyhash_pad g1 = replicate 512 0 \<and>
     (\<exists>b \<in> set (keyhash_pad g1). unat b \<noteq> n1 - x2 g1)"
proof -
  let ?g = "init_gost_keyhash keyhash_static"
  have h: "hashing (Mem []) (length ([] :: byte list)) ?g = Some ?g"
    unfolding hashing_def by (subst hashing_loop.simps) simp
  have n: "n1 - x2 ?g = 512" by (simp add: init_static n1_def)
  have p: "keyhash_pad ?g = replicate 512 0"
    unfolding keyhash_pad_def Let_def n by simp
  have b: "\<exists>b \<in> set (keyhash_pad ?g). unat b \<noteq> n1 - x2 ?g"
    unfolding p n by simp
  from h n p b show ?thesis by blast
qed

end
